theory Spec2Isabelle
  imports Main "HOL-Library.Word" "HOL-Library.Sublist" "HOL-Library.Multiset"
begin

section \<open>JavaScript strings\<close>

text \<open>
  A JavaScript string is a finite sequence of 16-bit code units. The source compares,
  concatenates, searches and trims strings code unit by code unit, so the model keeps
  that representation. \<open>js\<close> embeds an ASCII literal.
\<close>

type_synonym js_string = "16 word list"

definition js :: "string \<Rightarrow> js_string" where
  "js s = map (\<lambda>c. word_of_nat (of_char c)) s"

definition LF :: js_string where
  "LF = [0x000A]"

text \<open>
  \<open>String.prototype.trim\<close> removes leading and trailing \<open>WhiteSpace\<close> and
  \<open>LineTerminator\<close> code points: TAB, VT, FF, SP, NBSP, ZWNBSP, the other members of
  the Unicode category Zs, and LF, CR, LS, PS. All of them are single code units.
\<close>

definition is_white_space :: "16 word \<Rightarrow> bool" where
  "is_white_space c \<longleftrightarrow>
     c = 0x0009 \<or> c = 0x000A \<or> c = 0x000B \<or> c = 0x000C \<or> c = 0x000D \<or> c = 0x0020 \<or>
     c = 0x00A0 \<or> c = 0x1680 \<or> (0x2000 \<le> c \<and> c \<le> 0x200A) \<or> c = 0x2028 \<or> c = 0x2029 \<or>
     c = 0x202F \<or> c = 0x205F \<or> c = 0x3000 \<or> c = 0xFEFF"

definition trim :: "js_string \<Rightarrow> js_string" where
  "trim s = rev (dropWhile is_white_space (rev (dropWhile is_white_space s)))"

text \<open>
  \<open>Array.prototype.join\<close>: the elements are converted to strings and concatenated
  with the separator between them; an element that is \<open>undefined\<close> (here \<open>None\<close>)
  contributes the empty string.
\<close>

fun join :: "js_string \<Rightarrow> js_string option list \<Rightarrow> js_string" where
  "join sep [] = []"
| "join sep [p] = (case p of None \<Rightarrow> [] | Some t \<Rightarrow> t)"
| "join sep (p # q # ps) = (case p of None \<Rightarrow> [] | Some t \<Rightarrow> t) @ sep @ join sep (q # ps)"

section \<open>The regular expression of the parser\<close>

text \<open>
  \<open>parseCommentSections\<close> builds the pattern \<open>start([\s\S]*?)end\<close> from two
  markers. No marker of the registry contains a character that is special in a pattern,
  so both markers match literally; the pattern has no flags. \<open>String.prototype.match\<close>
  tries the start positions from left to right, and at each position where \<open>start\<close>
  matches the lazy group grows one code unit at a time until \<open>end\<close> matches; when the
  input is exhausted the matcher backtracks to the next start position.
  \<open>lazy_until\<close> is the lazy group followed by \<open>end\<close> and returns the captured group;
  \<open>regex_exec\<close> is the whole match and returns \<open>match[1]\<close>, or \<open>None\<close> for \<open>null\<close>.
\<close>

fun lazy_until :: "'a list \<Rightarrow> 'a list \<Rightarrow> 'a list option" where
  "lazy_until e [] = (if e = [] then Some [] else None)"
| "lazy_until e (x # xs) =
     (if prefix e (x # xs) then Some [] else map_option ((#) x) (lazy_until e xs))"

fun regex_exec :: "'a list \<Rightarrow> 'a list \<Rightarrow> 'a list \<Rightarrow> 'a list option" where
  "regex_exec s e [] = (if s = [] then lazy_until e [] else None)"
| "regex_exec s e (x # xs) =
     (if prefix s (x # xs)
      then (case lazy_until e (drop (length s) (x # xs)) of
              Some m \<Rightarrow> Some m
            | None \<Rightarrow> regex_exec s e xs)
      else regex_exec s e xs)"

section \<open>The section registry\<close>

definition CEREBRUS_IDENTIFIER :: js_string where
  "CEREBRUS_IDENTIFIER = js ''<!-- TiddlyWiki PR report -->''"

record section_config =
  priority :: int
  start :: js_string
  end' :: js_string

text \<open>The object literal \<open>SECTIONS\<close>, as its own properties in insertion order.\<close>

definition SECTIONS :: "(js_string \<times> section_config) list" where
  "SECTIONS =
    [(js ''BUILD_SIZE'',
        \<lparr>priority = 1,
         start = js ''<!-- Build Size Section -->'',
         end' = js ''<!-- End Build Size Section -->''\<rparr>),
     (js ''PATH_VALIDATION'',
        \<lparr>priority = 2,
         start = js ''<!-- Path Validation Section -->'',
         end' = js ''<!-- End Path Validation Section -->''\<rparr>),
     (js ''CHANGE_NOTE'',
        \<lparr>priority = 3,
         start = js ''<!-- Change Note Section -->'',
         end' = js ''<!-- End Change Note Section -->''\<rparr>)]"

text \<open>
  \<open>SECTIONS[sectionKey]\<close> is a property read on an ordinary object, so a name that is
  not an own property is looked up on \<open>Object.prototype\<close>. The names below are the
  properties of \<open>Object.prototype\<close>; each of them holds a function or an object, which
  is truthy and has no enumerable own property.
\<close>

definition Object_prototype_names :: "js_string list" where
  "Object_prototype_names =
    [js ''constructor'', js ''__defineGetter__'', js ''__defineSetter__'',
     js ''hasOwnProperty'', js ''__lookupGetter__'', js ''__lookupSetter__'',
     js ''isPrototypeOf'', js ''propertyIsEnumerable'', js ''toString'', js ''valueOf'',
     js ''__proto__'', js ''toLocaleString'']"

datatype lookup = Own section_config | Inherited | Undefined

definition SECTIONS_get :: "js_string \<Rightarrow> lookup" where
  "SECTIONS_get sectionKey =
     (case map_of SECTIONS sectionKey of
        Some cfg \<Rightarrow> Own cfg
      | None \<Rightarrow> if sectionKey \<in> set Object_prototype_names then Inherited else Undefined)"

fun truthy :: "lookup \<Rightarrow> bool" where
  "truthy (Own cfg) = True"
| "truthy Inherited = True"
| "truthy Undefined = False"

text \<open>
  A section instance is the object \<open>{content, ...config}\<close>. The spread copies the three
  properties of a registry entry and nothing from an inherited value, whose instance
  then has \<open>priority\<close>, \<open>start\<close> and \<open>end\<close> undefined.
\<close>

record section_instance =
  content :: js_string
  config :: "section_config option"

fun spread :: "lookup \<Rightarrow> section_config option" where
  "spread (Own cfg) = Some cfg"
| "spread Inherited = None"
| "spread Undefined = None"

definition field :: "(section_config \<Rightarrow> 'a) \<Rightarrow> section_instance \<Rightarrow> 'a option" where
  "field f s = map_option f (config s)"

section \<open>Objects as ordered property lists\<close>

text \<open>
  The \<open>sections\<close> object is a list of its own enumerable properties in insertion
  order, which is the order of \<open>Object.entries\<close> (no key that reaches an assignment is
  an array index). Assigning to an existing key keeps its position. Assigning to
  \<open>__proto__\<close> runs the setter of \<open>Object.prototype\<close>, which replaces the prototype
  and creates no own property; a computed key in an object literal always creates one.
\<close>

type_synonym sections = "(js_string \<times> section_instance) list"

fun assign :: "sections \<Rightarrow> js_string \<Rightarrow> section_instance \<Rightarrow> sections" where
  "assign [] k v = [(k, v)]"
| "assign ((k', v') # rest) k v =
     (if k' = k then (k, v) # rest else (k', v') # assign rest k v)"

definition obj_set :: "sections \<Rightarrow> js_string \<Rightarrow> section_instance \<Rightarrow> sections" where
  "obj_set obj k v = (if k = js ''__proto__'' then obj else assign obj k v)"

definition obj_delete :: "sections \<Rightarrow> js_string \<Rightarrow> sections" where
  "obj_delete obj k = filter (\<lambda>(k', v). k' \<noteq> k) obj"

section \<open>Parser\<close>

fun parse_entries :: "(js_string \<times> section_config) list \<Rightarrow> js_string \<Rightarrow> sections" where
  "parse_entries [] commentBody = []"
| "parse_entries ((key, cfg) # rest) commentBody =
     (case regex_exec (start cfg) (end' cfg) commentBody of
        Some m \<Rightarrow> (key, \<lparr>content = trim m, config = Some cfg\<rparr>) # parse_entries rest commentBody
      | None \<Rightarrow> parse_entries rest commentBody)"

definition parseCommentSections :: "js_string \<Rightarrow> sections" where
  "parseCommentSections commentBody = parse_entries SECTIONS commentBody"

section \<open>Composer\<close>

text \<open>
  The comparator \<open>a.priority - b.priority\<close> is \<open>NaN\<close> (here \<open>None\<close>) when a priority
  is undefined. \<open>Array.prototype.sort\<close> is stable; the model is the stable insertion
  sort, which moves an entry before another only when the comparator is negative.
  Where every priority is defined this is the order the language prescribes; where one
  is undefined the language leaves the order to the implementation, and no theorem
  below depends on it.
\<close>

definition by_priority :: "section_instance \<Rightarrow> section_instance \<Rightarrow> int option" where
  "by_priority a b =
     (case (field priority a, field priority b) of
        (Some x, Some y) \<Rightarrow> Some (x - y)
      | _ \<Rightarrow> None)"

definition negative :: "int option \<Rightarrow> bool" where
  "negative r = (case r of Some d \<Rightarrow> d < 0 | None \<Rightarrow> False)"

fun insert_entry :: "js_string \<times> section_instance \<Rightarrow> sections \<Rightarrow> sections" where
  "insert_entry x [] = [x]"
| "insert_entry x (y # ys) =
     (if negative (by_priority (snd y) (snd x)) then y # insert_entry x ys else x # y # ys)"

fun sort_entries :: "sections \<Rightarrow> sections" where
  "sort_entries [] = []"
| "sort_entries (x # xs) = insert_entry x (sort_entries xs)"

text \<open>The body of the \<open>forEach\<close> loop: the parts pushed for the sorted sections.\<close>

fun section_parts :: "section_instance list \<Rightarrow> js_string option list" where
  "section_parts [] = []"
| "section_parts (s # rest) =
     [Some [], field start s, Some [], Some (content s), Some [], field end' s]
     @ (if rest \<noteq> [] then [Some [], Some (js ''---'')] else [])
     @ section_parts rest"

definition buildComment :: "sections \<Rightarrow> js_string" where
  "buildComment sections =
     (let sortedSections = sort_entries sections;
          parts = Some CEREBRUS_IDENTIFIER # section_parts (map snd sortedSections)
      in join LF parts)"

datatype error = Error js_string

definition unknown_key :: "js_string \<Rightarrow> error" where
  "unknown_key sectionKey = Error (js ''Unknown section key: '' @ sectionKey)"

definition updateCommentSection :: "js_string \<Rightarrow> js_string \<Rightarrow> js_string \<Rightarrow> error + js_string" where
  "updateCommentSection existingBody sectionKey newContent =
     (if \<not> truthy (SECTIONS_get sectionKey) then Inl (unknown_key sectionKey)
      else
        let sections = parseCommentSections existingBody;
            sections = obj_set sections sectionKey
                         \<lparr>content = newContent, config = spread (SECTIONS_get sectionKey)\<rparr>
        in Inr (buildComment sections))"

text \<open>The result \<open>null\<close> of \<open>removeCommentSection\<close> is \<open>None\<close>.\<close>

definition removeCommentSection :: "js_string \<Rightarrow> js_string \<Rightarrow> error + js_string option" where
  "removeCommentSection existingBody sectionKey =
     (if \<not> truthy (SECTIONS_get sectionKey) then Inl (unknown_key sectionKey)
      else
        let sections = parseCommentSections existingBody;
            sections = obj_delete sections sectionKey
        in if length sections = 0 then Inr None
           else Inr (Some (buildComment sections)))"

definition createCommentWithSection :: "js_string \<Rightarrow> js_string \<Rightarrow> error + js_string" where
  "createCommentWithSection sectionKey content' =
     (if \<not> truthy (SECTIONS_get sectionKey) then Inl (unknown_key sectionKey)
      else
        let sections = [(sectionKey,
                         \<lparr>content = content', config = spread (SECTIONS_get sectionKey)\<rparr>)]
        in Inr (buildComment sections))"

definition registered :: "js_string \<Rightarrow> bool" where
  "registered sectionKey \<longleftrightarrow> sectionKey \<in> set (map fst SECTIONS)"

section \<open>The rendered format and section sets\<close>

text \<open>
  The format of a rendered comment, written as one string: the guard marker, and for
  each section a blank line, its start marker, a blank line, its content, a blank line
  and its end marker, with a blank line and a \<open>---\<close> line between consecutive sections.
  A section is given by its registry entry and its content.
\<close>

fun format_sections :: "(section_config \<times> js_string) list \<Rightarrow> js_string" where
  "format_sections [] = []"
| "format_sections [(cfg, c)] = LF @ LF @ start cfg @ LF @ LF @ c @ LF @ LF @ end' cfg"
| "format_sections ((cfg, c) # rest) =
     LF @ LF @ start cfg @ LF @ LF @ c @ LF @ LF @ end' cfg @ LF @ LF @ js ''---''
     @ format_sections rest"

definition comment_format :: "(section_config \<times> js_string) list \<Rightarrow> js_string" where
  "comment_format ss = CEREBRUS_IDENTIFIER @ format_sections ss"

text \<open>
  The positions of the start markers in \<open>comment_format\<close>: the first argument is the
  length of the text before the section.
\<close>

fun start_positions :: "nat \<Rightarrow> (section_config \<times> js_string) list \<Rightarrow> nat list" where
  "start_positions n [] = []"
| "start_positions n ((cfg, c) # rest) =
     (n + 2) #
     start_positions (n + 2 + length (start cfg) + 2 + length c + 2 + length (end' cfg) + 5) rest"

text \<open>
  A section set is an object whose keys are registered identifiers, each holding an
  instance of its registry entry.
\<close>

definition section_set :: "sections \<Rightarrow> bool" where
  "section_set ss \<longleftrightarrow>
     distinct (map fst ss) \<and> (\<forall>(k, s) \<in> set ss. registered k \<and> config s = map_of SECTIONS k)"

text \<open>
  A content is free of markers when no start or end marker of the registry occurs in
  it. A valid section set is a section set whose contents are trimmed and free of
  markers.
\<close>

definition marker_free :: "js_string \<Rightarrow> bool" where
  "marker_free c \<longleftrightarrow>
     (\<forall>(k, cfg) \<in> set SECTIONS. \<not> sublist (start cfg) c \<and> \<not> sublist (end' cfg) c)"

definition valid_sections :: "sections \<Rightarrow> bool" where
  "valid_sections ss \<longleftrightarrow>
     section_set ss \<and>
     (\<forall>(k, s) \<in> set ss. trim (content s) = content s \<and> marker_free (content s))"

text \<open>
  The canonical form of a section set: a set with no section has no text (\<open>None\<close>);
  any other is serialized by \<open>buildComment\<close>.
\<close>

definition canonical_form :: "sections \<Rightarrow> js_string option" where
  "canonical_form ss = (if ss = [] then None else Some (buildComment ss))"

section \<open>Auxiliary definitions\<close>

text \<open>
  \<open>instances f\<close> is the section set with content \<open>f k\<close> for the identifier \<open>k\<close>, in
  registry order; \<open>contents\<close> reads the contents of a section set; \<open>parsed b\<close> gives the
  trimmed group that the pattern of each identifier captures in \<open>b\<close>; \<open>render f\<close> is the
  string that \<open>buildComment\<close> joins for \<open>instances f\<close>.
\<close>

definition prio :: "js_string \<times> section_instance \<Rightarrow> int" where
  "prio x = priority (the (config (snd x)))"

fun instances_of :: "(js_string \<times> section_config) list \<Rightarrow> (js_string \<Rightarrow> js_string option) \<Rightarrow> sections" where
  "instances_of [] f = []"
| "instances_of ((k, cfg) # es) f =
     (case f k of
        None \<Rightarrow> instances_of es f
      | Some c \<Rightarrow> (k, \<lparr>content = c, config = Some cfg\<rparr>) # instances_of es f)"

definition instances :: "(js_string \<Rightarrow> js_string option) \<Rightarrow> sections" where
  "instances f = instances_of SECTIONS f"

definition contents :: "sections \<Rightarrow> js_string \<Rightarrow> js_string option" where
  "contents ss k = map_option content (map_of ss k)"

definition parsed :: "js_string \<Rightarrow> js_string \<Rightarrow> js_string option" where
  "parsed b k =
     (case map_of SECTIONS k of
        None \<Rightarrow> None
      | Some cfg \<Rightarrow> map_option trim (regex_exec (start cfg) (end' cfg) b))"

definition render :: "(js_string \<Rightarrow> js_string option) \<Rightarrow> js_string" where
  "render f = join LF (Some CEREBRUS_IDENTIFIER # section_parts (map snd (instances f)))"

definition rendered :: "js_string \<times> section_instance \<Rightarrow> section_config \<times> js_string" where
  "rendered x = (the (config (snd x)), content (snd x))"

text \<open>\<open>format_before\<close> is the text of the sections that precede another section.\<close>

fun format_before :: "(section_config \<times> js_string) list \<Rightarrow> js_string" where
  "format_before [] = []"
| "format_before ((cfg, c) # rest) =
     LF @ LF @ start cfg @ LF @ LF @ c @ LF @ LF @ end' cfg @ LF @ LF @ js ''---''
     @ format_before rest"

text \<open>\<open>first_at w p t\<close>: the string \<open>w\<close> stands in \<open>t\<close> at position \<open>p\<close> and begins nowhere before.\<close>

definition first_at :: "'a list \<Rightarrow> nat \<Rightarrow> 'a list \<Rightarrow> bool" where
  "first_at w p t \<longleftrightarrow>
     take (length w) (drop p t) = w \<and> \<not> sublist w (take (p + length w - 1) t)"

section \<open>Facts about the registry\<close>

lemma registered_iff:
  "registered k \<longleftrightarrow> k = js ''BUILD_SIZE'' \<or> k = js ''PATH_VALIDATION'' \<or> k = js ''CHANGE_NOTE''"
  by (auto simp: registered_def SECTIONS_def)

lemma registered_lookup:
  assumes "registered k"
  obtains cfg where "map_of SECTIONS k = Some cfg" "SECTIONS_get k = Own cfg" "(k, cfg) \<in> set SECTIONS"
proof -
  from assms have "k \<in> fst ` set SECTIONS" by (simp add: registered_def)
  then obtain cfg where m: "map_of SECTIONS k = Some cfg"
    by (meson domD domIff map_of_eq_None_iff)
  then have "SECTIONS_get k = Own cfg" "(k, cfg) \<in> set SECTIONS"
    by (simp_all add: SECTIONS_get_def map_of_SomeD)
  with m show thesis using that by blast
qed

lemma registered_not_proto: "registered k \<Longrightarrow> k \<noteq> js ''__proto__''"
  by (auto simp: registered_iff js_def)

lemma registered_truthy: "registered k \<Longrightarrow> truthy (SECTIONS_get k)"
  by (erule registered_lookup) simp

lemma unregistered_lookup: "\<not> registered k \<Longrightarrow> map_of SECTIONS k = None"
  by (simp add: registered_def map_of_eq_None_iff)

lemma markers_nonempty: "(k, cfg) \<in> set SECTIONS \<Longrightarrow> start cfg \<noteq> [] \<and> end' cfg \<noteq> []"
  by (auto simp: SECTIONS_def js_def)

lemma start_has_lt: "(k, cfg) \<in> set SECTIONS \<Longrightarrow> 0x3C \<in> set (start cfg)"
  by (auto simp: SECTIONS_def js_def)

section \<open>Facts about the parser\<close>

lemma regex_exec_no_start: "\<not> sublist s b \<Longrightarrow> regex_exec s e b = None"
  by (induction s e b rule: regex_exec.induct) (auto simp: sublist_Cons_right)

lemma parse_entries_no_start:
  "\<forall>(k, cfg) \<in> set es. \<not> sublist (start cfg) b \<Longrightarrow> parse_entries es b = []"
  by (induction es b rule: parse_entries.induct) (auto simp: regex_exec_no_start)

lemma parse_no_lt: "0x3C \<notin> set b \<Longrightarrow> parseCommentSections b = []"
  unfolding parseCommentSections_def
  by (rule parse_entries_no_start) (use start_has_lt set_mono_sublist in fast)

lemma parse_empty: "parseCommentSections [] = []"
  by (rule parse_no_lt) simp

lemma keys_parse_entries: "fst ` set (parse_entries es b) \<subseteq> fst ` set es"
  by (induction es b rule: parse_entries.induct) (auto split: option.splits)

lemma parsed_registered: "(k, s) \<in> set (parseCommentSections b) \<Longrightarrow> registered k"
  using keys_parse_entries [of SECTIONS b]
  by (force simp: parseCommentSections_def registered_def)

section \<open>Facts about the composer\<close>

lemma build_single:
  "buildComment [(k, \<lparr>content = c, config = Some cfg\<rparr>)] =
     CEREBRUS_IDENTIFIER @ LF @ LF @ start cfg @ LF @ LF @ c @ LF @ LF @ end' cfg"
  by (simp add: buildComment_def field_def)

lemma obj_delete_single: "map fst obj = [k] \<Longrightarrow> obj_delete obj k = []"
  by (cases obj) (auto simp: obj_delete_def)

text \<open>
  The three guards throw exactly for the names that are neither registered nor
  inherited from \<open>Object.prototype\<close>, with a message that ends in the key, and the
  result does not depend on the body.
\<close>

lemma throws_iff:
  "updateCommentSection b k c = Inl e \<longleftrightarrow>
     e = unknown_key k \<and> \<not> registered k \<and> k \<notin> set Object_prototype_names"
  "removeCommentSection b k = Inl e \<longleftrightarrow>
     e = unknown_key k \<and> \<not> registered k \<and> k \<notin> set Object_prototype_names"
  "createCommentWithSection k c = Inl e \<longleftrightarrow>
     e = unknown_key k \<and> \<not> registered k \<and> k \<notin> set Object_prototype_names"
  by (cases "registered k";
      auto simp: updateCommentSection_def removeCommentSection_def createCommentWithSection_def Let_def
        SECTIONS_get_def unregistered_lookup elim: registered_lookup)+

section \<open>When the pattern matches\<close>

text \<open>
  The pattern of a section matches a body exactly when the body holds the start marker
  followed, at any distance, by the end marker.
\<close>

lemma lazy_until_None_iff: "lazy_until e xs = None \<longleftrightarrow> \<not> sublist e xs"
  by (induction e xs rule: lazy_until.induct) (auto simp: sublist_Cons_right)

lemma regex_exec_None_iff:
  "regex_exec s e b = None \<longleftrightarrow> \<not> (\<exists>pre mid post. b = pre @ s @ mid @ e @ post)"
proof (induction s e b rule: regex_exec.induct)
  case (1 s e)
  then show ?case by (auto simp: lazy_until_None_iff)
next
  case (2 s e x xs)
  let ?span = "\<lambda>b. \<exists>pre mid post. b = pre @ s @ mid @ e @ post"
  have here: "prefix s (x # xs) \<and> lazy_until e (drop (length s) (x # xs)) \<noteq> None
                \<longleftrightarrow> (\<exists>mid post. x # xs = s @ mid @ e @ post)"
    by (auto simp: lazy_until_None_iff sublist_def prefix_def) blast+
  have split: "?span (x # xs) \<longleftrightarrow> (\<exists>mid post. x # xs = s @ mid @ e @ post) \<or> ?span xs"
  proof
    assume "?span (x # xs)"
    then obtain pre mid post where eq: "x # xs = pre @ s @ mid @ e @ post" by blast
    show "(\<exists>mid post. x # xs = s @ mid @ e @ post) \<or> ?span xs"
    proof (cases pre)
      case Nil
      with eq show ?thesis by auto
    next
      case (Cons y pre')
      with eq have "xs = pre' @ s @ mid @ e @ post" by simp
      then show ?thesis by blast
    qed
  next
    assume "(\<exists>mid post. x # xs = s @ mid @ e @ post) \<or> ?span xs"
    then show "?span (x # xs)"
    proof
      assume "\<exists>mid post. x # xs = s @ mid @ e @ post"
      then show ?thesis by (metis append_Nil)
    next
      assume "?span xs"
      then obtain pre mid post where "xs = pre @ s @ mid @ e @ post" by blast
      then have "x # xs = (x # pre) @ s @ mid @ e @ post" by simp
      then show ?thesis by blast
    qed
  qed
  show ?case
  proof (cases "prefix s (x # xs) \<and> lazy_until e (drop (length s) (x # xs)) \<noteq> None")
    case True
    then have "regex_exec s e (x # xs) \<noteq> None" by auto
    moreover from True here split have "?span (x # xs)" by blast
    ultimately show ?thesis by blast
  next
    case False
    then have "regex_exec s e (x # xs) = regex_exec s e xs" by auto
    moreover from False here split have "?span (x # xs) \<longleftrightarrow> ?span xs" by blast
    moreover have "regex_exec s e xs = None \<longleftrightarrow> \<not> ?span xs"
    proof (cases "prefix s (x # xs)")
      case True
      with False have "lazy_until e (drop (length s) (x # xs)) = None" by simp
      with True show ?thesis using "2.IH"(1) by blast
    next
      case False
      then show ?thesis using "2.IH"(2) by blast
    qed
    ultimately show ?thesis by simp
  qed
qed

lemma distinct_keys: "distinct (map fst SECTIONS)"
  by (simp add: SECTIONS_def js_def)

lemma parse_entries_absent:
  "\<forall>cfg. (k, cfg) \<in> set es \<longrightarrow> regex_exec (start cfg) (end' cfg) b = None
     \<Longrightarrow> k \<notin> fst ` set (parse_entries es b)"
  by (induction es b rule: parse_entries.induct) (auto split: option.splits)

section \<open>Sorting section sets\<close>

text \<open>
  On a section set every priority is defined, the comparator is a strict order on the
  entries, and the sorted entries are the instances in registry order.
\<close>

lemma insert_entry_insort:
  "config (snd x) \<noteq> None \<Longrightarrow> \<forall>y \<in> set ys. config (snd y) \<noteq> None
     \<Longrightarrow> insert_entry x ys = insort_key prio x ys"
  by (induction ys) (auto simp: negative_def by_priority_def field_def prio_def)

lemma sort_entries_sort_key:
  "\<forall>y \<in> set ys. config (snd y) \<noteq> None \<Longrightarrow> sort_entries ys = sort_key prio ys"
proof (induction ys)
  case Nil
  then show ?case by simp
next
  case (Cons y ys)
  then have "sort_entries ys = sort_key prio ys" by simp
  moreover have "\<forall>z \<in> set (sort_key prio ys). config (snd z) \<noteq> None"
    using Cons.prems by simp
  ultimately show ?case
    using Cons.prems by (simp add: insert_entry_insort)
qed

lemma set_instances_of:
  "set (instances_of es f) =
     {(k, \<lparr>content = c, config = Some cfg\<rparr>) |k cfg c. (k, cfg) \<in> set es \<and> f k = Some c}"
  by (induction es f rule: instances_of.induct) (auto split: option.splits)

lemma set_instances:
  "set (instances f) =
     {(k, \<lparr>content = c, config = Some cfg\<rparr>) |k cfg c. (k, cfg) \<in> set SECTIONS \<and> f k = Some c}"
  by (simp add: instances_def set_instances_of)

lemma keys_instances_of: "fst ` set (instances_of es f) \<subseteq> fst ` set es"
  by (force simp: set_instances_of)

lemma distinct_instances_of: "distinct (map fst es) \<Longrightarrow> distinct (map fst (instances_of es f))"
proof (induction es f rule: instances_of.induct)
  case (1 f)
  then show ?case by simp
next
  case (2 k cfg es f)
  have "k \<notin> fst ` set (instances_of es f)"
    using keys_instances_of [of es f] "2.prems" by auto
  with 2 show ?case by (simp split: option.splits)
qed

lemma distinct_instances: "distinct (map fst (instances f))"
  by (simp add: instances_def distinct_instances_of distinct_keys)

lemma sorted_priorities: "sorted_wrt (<) (map (priority \<circ> snd) SECTIONS)"
  by (simp add: SECTIONS_def)

lemma prio_instances_of:
  "map prio (instances_of es f) = map (priority \<circ> snd) (filter (\<lambda>(k, cfg). f k \<noteq> None) es)"
  by (induction es f rule: instances_of.induct) (auto simp: prio_def split: option.splits)

lemma sorted_instances: "sorted_wrt (<) (map prio (instances f))"
  using sorted_priorities
  by (simp add: instances_def prio_instances_of sorted_wrt_map sorted_wrt_filter)

lemma map_of_SECTIONS: "(k, cfg) \<in> set SECTIONS \<Longrightarrow> map_of SECTIONS k = Some cfg"
  using distinct_keys by simp

lemma section_set_instances: "section_set (instances f)"
  by (auto simp: section_set_def distinct_instances set_instances registered_def map_of_SECTIONS
      intro: rev_image_eqI)

lemma section_setD:
  assumes "section_set ss" "(k, s) \<in> set ss"
  obtains cfg where "(k, cfg) \<in> set SECTIONS" "config s = Some cfg" "map_of ss k = Some s"
    "s = \<lparr>content = content s, config = Some cfg\<rparr>"
proof -
  from assms have r: "registered k" and c: "config s = map_of SECTIONS k" and m: "map_of ss k = Some s"
    by (auto simp: section_set_def)
  from r obtain cfg where "map_of SECTIONS k = Some cfg" "(k, cfg) \<in> set SECTIONS"
    by (rule registered_lookup)
  with c have "(k, cfg) \<in> set SECTIONS" "config s = Some cfg" by simp_all
  moreover from this(2) have "s = \<lparr>content = content s, config = Some cfg\<rparr>" by (cases s) simp
  ultimately show thesis using m that by blast
qed

lemma section_set_eq:
  assumes "section_set ss"
  shows "set ss = set (instances (contents ss))"
proof (intro set_eqI iffI)
  fix x assume x: "x \<in> set ss"
  obtain k s where [simp]: "x = (k, s)" by (cases x)
  from x have "(k, s) \<in> set ss" by simp
  with assms obtain cfg where "(k, cfg) \<in> set SECTIONS" "map_of ss k = Some s"
    "s = \<lparr>content = content s, config = Some cfg\<rparr>"
    by (rule section_setD)
  then have "\<exists>k' cfg' c. (k, s) = (k', \<lparr>content = c, config = Some cfg'\<rparr>) \<and>
      (k', cfg') \<in> set SECTIONS \<and> contents ss k' = Some c"
    by (intro exI [of _ k] exI [of _ cfg] exI [of _ "content s"]) (simp add: contents_def)
  then show "x \<in> set (instances (contents ss))"
    by (simp add: set_instances)
next
  fix x assume "x \<in> set (instances (contents ss))"
  then obtain k cfg s where x: "x = (k, \<lparr>content = content s, config = Some cfg\<rparr>)"
    "(k, cfg) \<in> set SECTIONS" "map_of ss k = Some s"
    by (auto simp: set_instances contents_def)
  then have in_ss: "(k, s) \<in> set ss" by (simp add: map_of_SomeD)
  with assms obtain cfg' where c: "(k, cfg') \<in> set SECTIONS" "s = \<lparr>content = content s, config = Some cfg'\<rparr>"
    by (rule section_setD)
  from c(1) x(2) have "cfg' = cfg" by (rule eq_key_imp_eq_value [OF distinct_keys])
  with c(2) x(1) in_ss show "x \<in> set ss" by simp
qed

lemma priority_inj:
  "(k, cfg) \<in> set SECTIONS \<Longrightarrow> (k', cfg') \<in> set SECTIONS \<Longrightarrow> priority cfg = priority cfg'
     \<Longrightarrow> k = k'"
  by (auto simp: SECTIONS_def)

lemma sort_section_set:
  assumes "section_set ss"
  shows "sort_entries ss = instances (contents ss)"
proof -
  have "\<forall>y \<in> set ss. config (snd y) \<noteq> None"
  proof
    fix y assume "y \<in> set ss"
    then have "(fst y, snd y) \<in> set ss" by simp
    with assms obtain cfg where "config (snd y) = Some cfg" by (rule section_setD)
    then show "config (snd y) \<noteq> None" by simp
  qed
  then have "sort_entries ss = sort_key prio ss" by (rule sort_entries_sort_key)
  also have "\<dots> = instances (contents ss)"
  proof (rule sort_key_inj_key_eq)
    from assms have "distinct ss" by (simp add: section_set_def distinct_map)
    moreover have "distinct (instances (contents ss))"
      using distinct_instances [of "contents ss"] by (simp add: distinct_map)
    ultimately show "mset ss = mset (instances (contents ss))"
      using section_set_eq [OF assms] by (simp add: set_eq_iff_mset_eq_distinct)
    show "inj_on prio (set ss)"
    proof (rule inj_onI)
      fix x y assume xy: "x \<in> set ss" "y \<in> set ss" "prio x = prio y"
      obtain k s k' s' where [simp]: "x = (k, s)" "y = (k', s')" by (cases x, cases y)
      from xy have in_ss: "(k, s) \<in> set ss" "(k', s') \<in> set ss" by simp_all
      from assms in_ss(1) obtain cfg where 1: "(k, cfg) \<in> set SECTIONS" "config s = Some cfg"
        by (rule section_setD)
      from assms in_ss(2) obtain cfg' where 2: "(k', cfg') \<in> set SECTIONS" "config s' = Some cfg'"
        by (rule section_setD)
      from xy(3) 1 2 have "priority cfg = priority cfg'" by (simp add: prio_def)
      with 1 2 have "k = k'" by (blast dest: priority_inj)
      moreover from assms have "distinct (map fst ss)" by (simp add: section_set_def)
      ultimately have "s = s'" using in_ss by (auto dest: eq_key_imp_eq_value)
      with \<open>k = k'\<close> show "x = y" by simp
    qed
    show "sorted (map prio (instances (contents ss)))"
      using sorted_instances [of "contents ss"] 
      by (simp add: strict_sorted_imp_sorted)
  qed
  finally show ?thesis .
qed

section \<open>Parsing and building as functions of the contents\<close>

lemma instances_of_cong:
  "\<forall>(k, cfg) \<in> set es. f k = g k \<Longrightarrow> instances_of es f = instances_of es g"
  by (induction es f rule: instances_of.induct) (auto split: option.splits)

lemma instances_cong: "(\<And>k. registered k \<Longrightarrow> f k = g k) \<Longrightarrow> instances f = instances g"
  unfolding instances_def by (rule instances_of_cong) (force simp: registered_def)

lemma parse_entries_instances_of:
  "distinct (map fst es) \<Longrightarrow>
   parse_entries es b =
     instances_of es (\<lambda>k. case map_of es k of None \<Rightarrow> None
        | Some cfg \<Rightarrow> map_option trim (regex_exec (start cfg) (end' cfg) b))"
proof (induction es b rule: parse_entries.induct)
  case (1 b)
  then show ?case by simp
next
  case (2 key cfg rest b)
  let ?f = "\<lambda>es k. case map_of es k of None \<Rightarrow> None
        | Some cfg \<Rightarrow> map_option trim (regex_exec (start cfg) (end' cfg) b)"
  have "instances_of rest (?f ((key, cfg) # rest)) = instances_of rest (?f rest)"
    using "2.prems" by (intro instances_of_cong) (auto simp: rev_image_eqI)
  moreover have "parse_entries rest b = instances_of rest (?f rest)"
    using 2 by (cases "regex_exec (start cfg) (end' cfg) b") simp_all
  ultimately show ?case by (simp split: option.splits)
qed

lemma parse_instances: "parseCommentSections b = instances (parsed b)"
proof -
  have "(\<lambda>k. case map_of SECTIONS k of None \<Rightarrow> None
        | Some cfg \<Rightarrow> map_option trim (regex_exec (start cfg) (end' cfg) b)) = parsed b"
    by (rule ext) (simp add: parsed_def)
  then show ?thesis
    using parse_entries_instances_of [OF distinct_keys, of b]
    by (simp add: parseCommentSections_def instances_def)
qed

lemma map_of_instances_of:
  "distinct (map fst es) \<Longrightarrow>
   map_of (instances_of es f) k =
     (case map_of es k of None \<Rightarrow> None
      | Some cfg \<Rightarrow> map_option (\<lambda>c. \<lparr>content = c, config = Some cfg\<rparr>) (f k))"
proof (induction es f rule: instances_of.induct)
  case (1 f)
  then show ?case by simp
next
  case (2 k' cfg es f)
  then show ?case
    by (cases "f k'") (auto split: option.splits simp: map_of_eq_None_iff)
qed

lemma contents_instances: "registered k \<Longrightarrow> contents (instances f) k = f k"
  by (erule registered_lookup)
     (simp add: contents_def instances_def map_of_instances_of distinct_keys option.map_comp comp_def
        option.map_ident)

lemma sort_instances: "sort_entries (instances f) = instances f"
proof -
  have "sort_entries (instances f) = instances (contents (instances f))"
    by (rule sort_section_set) (rule section_set_instances)
  also have "\<dots> = instances f"
    by (rule instances_cong) (rule contents_instances)
  finally show ?thesis .
qed

lemma build_instances: "buildComment (instances f) = render f"
  by (simp add: buildComment_def render_def sort_instances)

lemma build_section_set: "section_set ss \<Longrightarrow> buildComment ss = render (contents ss)"
  by (simp add: buildComment_def render_def sort_section_set sort_instances)

lemma keys_assign: "fst ` set (assign ss k v) = insert k (fst ` set ss)"
  by (induction ss k v rule: assign.induct) auto

lemma distinct_assign: "distinct (map fst ss) \<Longrightarrow> distinct (map fst (assign ss k v))"
proof (induction ss k v rule: assign.induct)
  case (1 k v)
  then show ?case by simp
next
  case (2 k' v' rest k v)
  show ?case
  proof (cases "k' = k")
    case True
    with 2 show ?thesis by simp
  next
    case False
    with "2.prems" have "k' \<notin> fst ` set (assign rest k v)"
      by (simp add: keys_assign)
    with False 2 show ?thesis by simp
  qed
qed

lemma set_assign: "set (assign ss k v) \<subseteq> insert (k, v) (set ss)"
  by (induction ss k v rule: assign.induct) auto

lemma map_of_assign: "map_of (assign ss k v) = (map_of ss)(k \<mapsto> v)"
  by (induction ss k v rule: assign.induct) auto

lemma section_set_assign:
  assumes "section_set ss" "registered k" "config v = map_of SECTIONS k"
  shows "section_set (assign ss k v)"
  unfolding section_set_def
proof (intro conjI ballI)
  from assms(1) show "distinct (map fst (assign ss k v))"
    by (simp add: section_set_def distinct_assign)
next
  fix x assume "x \<in> set (assign ss k v)"
  with set_assign have "x = (k, v) \<or> x \<in> set ss" by blast
  with assms show "case x of (k, s) \<Rightarrow> registered k \<and> config s = map_of SECTIONS k"
    by (auto simp: section_set_def)
qed

lemma contents_assign: "contents (assign ss k v) = (contents ss)(k \<mapsto> content v)"
  by (rule ext) (simp add: contents_def map_of_assign)

lemma update_render:
  assumes "registered k"
  shows "updateCommentSection b k c = Inr (render ((parsed b)(k \<mapsto> c)))"
proof -
  from assms obtain cfg where cfg: "map_of SECTIONS k = Some cfg" "SECTIONS_get k = Own cfg"
    by (rule registered_lookup)
  let ?v = "\<lparr>content = c, config = Some cfg\<rparr>"
  have "section_set (assign (instances (parsed b)) k ?v)"
    using section_set_instances assms by (rule section_set_assign) (simp add: cfg)
  then have "buildComment (assign (instances (parsed b)) k ?v)
               = render (contents (assign (instances (parsed b)) k ?v))"
    by (rule build_section_set)
  also have "\<dots> = render ((parsed b)(k \<mapsto> c))"
    unfolding render_def
    by (simp add: contents_assign instances_cong [of "(contents (instances (parsed b)))(k \<mapsto> c)" "(parsed b)(k \<mapsto> c)"]
        contents_instances)
  finally show ?thesis
    by (simp add: updateCommentSection_def cfg parse_instances obj_set_def registered_not_proto [OF assms])
qed

lemma delete_instances_of:
  "filter (\<lambda>(k', v). k' \<noteq> k) (instances_of es f) = instances_of es (f(k := None))"
  by (induction es f rule: instances_of.induct) (auto split: option.splits)

lemma remove_render:
  assumes "registered k"
  shows "removeCommentSection b k =
           Inr (if instances ((parsed b)(k := None)) = [] then None
                else Some (render ((parsed b)(k := None))))"
  using registered_truthy [OF assms]
  by (simp add: removeCommentSection_def parse_instances obj_delete_def instances_def
      delete_instances_of build_instances [unfolded instances_def])

section \<open>The joined parts are the format\<close>

lemma join_Cons:
  "ps \<noteq> [] \<Longrightarrow> join sep (p # ps) = (case p of None \<Rightarrow> [] | Some t \<Rightarrow> t) @ sep @ join sep ps"
  by (cases ps) auto

lemma section_parts_nonempty: "ss \<noteq> [] \<Longrightarrow> section_parts ss \<noteq> []"
  by (cases ss) auto

lemma join_section_parts:
  "\<forall>x \<in> set xs. config (snd x) \<noteq> None \<Longrightarrow> xs \<noteq> [] \<Longrightarrow>
   LF @ join LF (section_parts (map snd xs)) = format_sections (map rendered xs)"
proof (induction xs)
  case Nil
  then show ?case by simp
next
  case (Cons x xs)
  obtain k c cfg where x: "x = (k, \<lparr>content = c, config = Some cfg\<rparr>)"
    using Cons.prems(1) by (cases x, cases "snd x") auto
  show ?case
  proof (cases xs)
    case Nil
    with x show ?thesis by (simp add: rendered_def field_def)
  next
    case (Cons y ys)
    with Cons.IH Cons.prems have IH: "LF @ join LF (section_parts (map snd xs)) = format_sections (map rendered xs)"
      by simp
    from Cons have ne: "section_parts (map snd xs) \<noteq> []" by simp
    have "LF @ join LF (section_parts (map snd (x # xs))) =
       LF @ LF @ start cfg @ LF @ LF @ c @ LF @ LF @ end' cfg @ LF @ LF @ js ''---''
          @ LF @ join LF (section_parts (map snd xs))"
      using ne Cons x by (simp add: field_def join_Cons)
    also have "\<dots> = format_sections (map rendered (x # xs))"
      unfolding IH using Cons x by (simp add: rendered_def)
    finally show ?thesis .
  qed
qed

lemma configs_instances: "\<forall>x \<in> set (instances f). config (snd x) \<noteq> None"
  by (auto simp: set_instances)

lemma render_format: "render f = comment_format (map rendered (instances f))"
proof (cases "instances f = []")
  case True
  then show ?thesis by (simp add: render_def comment_format_def)
next
  case False
  then have "section_parts (map snd (instances f)) \<noteq> []"
    by (simp add: section_parts_nonempty)
  then have "render f = CEREBRUS_IDENTIFIER @ LF @ join LF (section_parts (map snd (instances f)))"
    by (simp add: render_def join_Cons)
  with False show ?thesis
    by (simp add: comment_format_def join_section_parts configs_instances)
qed

lemma set_rendered_instances:
  "set (map rendered (instances f)) = {(cfg, c) |k cfg c. (k, cfg) \<in> set SECTIONS \<and> f k = Some c}"
  by (force simp: set_instances rendered_def image_iff)

lemma rendered_instances_of:
  "map rendered (instances_of es f) =
     map (\<lambda>(k, cfg). (cfg, the (f k))) (filter (\<lambda>(k, cfg). f k \<noteq> None) es)"
  by (induction es f rule: instances_of.induct) (auto simp: rendered_def split: option.splits)

lemma sorted_rendered:
  "sorted_wrt (\<lambda>a b. priority (fst a) < priority (fst b)) (map rendered (instances f))"
proof -
  have "sorted_wrt (\<lambda>a b. priority (snd a) < priority (snd b)) SECTIONS"
    by (simp add: SECTIONS_def)
  then have "sorted_wrt (\<lambda>a b. priority (snd a) < priority (snd b))
               (filter (\<lambda>(k, cfg). f k \<noteq> None) SECTIONS)"
    by (rule sorted_wrt_filter)
  then show ?thesis
    by (simp add: instances_def rendered_instances_of sorted_wrt_map case_prod_unfold)
qed

lemma map_of_parse:
  "map_of (parseCommentSections b) k =
     (case map_of SECTIONS k of None \<Rightarrow> None
      | Some cfg \<Rightarrow> map_option (\<lambda>c. \<lparr>content = c, config = Some cfg\<rparr>) (parsed b k))"
  by (simp add: parse_instances instances_def map_of_instances_of distinct_keys)

lemma ran_updated_parse:
  assumes "map_of SECTIONS sectionKey = Some cfg"
  shows "(\<lambda>s. (the (config s), content s)) `
           ran ((map_of (parseCommentSections body))(sectionKey \<mapsto> \<lparr>content = c, config = Some cfg\<rparr>))
         = {(cfg', c') |k cfg' c'. (k, cfg') \<in> set SECTIONS \<and> ((parsed body)(sectionKey \<mapsto> c)) k = Some c'}"
  (is "?f ` ran ?m = ?R")
proof (intro set_eqI iffI)
  fix x assume "x \<in> ?f ` ran ?m"
  then obtain s where "s \<in> ran ?m" and xs: "x = ?f s" by blast
  then obtain k where ks: "?m k = Some s" unfolding ran_def by blast
  have "\<exists>cfg' c'. s = \<lparr>content = c', config = Some cfg'\<rparr> \<and> (k, cfg') \<in> set SECTIONS \<and>
          ((parsed body)(sectionKey \<mapsto> c)) k = Some c'"
  proof (cases "k = sectionKey")
    case True
    with ks have "s = \<lparr>content = c, config = Some cfg\<rparr>" by simp
    moreover from assms True have "(k, cfg) \<in> set SECTIONS" by (simp add: map_of_SomeD)
    ultimately show ?thesis using True by simp
  next
    case False
    with ks have p: "map_of (parseCommentSections body) k = Some s" by simp
    then obtain cfg' where c: "map_of SECTIONS k = Some cfg'"
      by (cases "map_of SECTIONS k") (simp_all add: map_of_parse)
    with p obtain c' where "parsed body k = Some c'" "s = \<lparr>content = c', config = Some cfg'\<rparr>"
      by (cases "parsed body k") (simp_all add: map_of_parse)
    moreover from c have "(k, cfg') \<in> set SECTIONS" by (rule map_of_SomeD)
    ultimately show ?thesis using False by simp
  qed
  then obtain cfg' c' where s: "s = \<lparr>content = c', config = Some cfg'\<rparr>"
    and r: "(k, cfg') \<in> set SECTIONS" "((parsed body)(sectionKey \<mapsto> c)) k = Some c'" by blast
  from xs s have "x = (cfg', c')" by simp
  with r show "x \<in> ?R" by blast
next
  fix x assume "x \<in> ?R"
  then obtain k cfg' c' where k: "x = (cfg', c')" "(k, cfg') \<in> set SECTIONS"
    "((parsed body)(sectionKey \<mapsto> c)) k = Some c'" by blast
  then have m: "map_of SECTIONS k = Some cfg'" by (simp add: map_of_SECTIONS)
  have "?m k = Some \<lparr>content = c', config = Some cfg'\<rparr>"
  proof (cases "k = sectionKey")
    case True
    with k m assms show ?thesis by simp
  next
    case False
    with k m show ?thesis by (simp add: map_of_parse)
  qed
  then have "\<lparr>content = c', config = Some cfg'\<rparr> \<in> ran ?m" by (rule ranI)
  then have "?f \<lparr>content = c', config = Some cfg'\<rparr> \<in> ?f ` ran ?m" by (rule imageI)
  with k(1) show "x \<in> ?f ` ran ?m" by simp
qed

section \<open>Positions of the rendered markers\<close>

lemma length_start_positions [simp]: "length (start_positions n ss) = length ss"
  by (induction n ss rule: start_positions.induct) auto

lemma start_positions_lower: "p \<in> set (start_positions n ss) \<Longrightarrow> n + 2 \<le> p"
  by (induction n ss arbitrary: p rule: start_positions.induct) fastforce+

lemma start_positions_mono:
  "i < j \<Longrightarrow> j < length ss \<Longrightarrow> start_positions n ss ! i < start_positions n ss ! j"
proof (induction n ss arbitrary: i j rule: start_positions.induct)
  case (1 n)
  then show ?case by simp
next
  case (2 n cfg c rest)
  obtain j' where j: "j = Suc j'" using "2.prems"(1) by (cases j) auto
  let ?m = "n + 2 + length (start cfg) + 2 + length c + 2 + length (end' cfg) + 5"
  show ?case
  proof (cases i)
    case 0
    from "2.prems" j have "start_positions ?m rest ! j' \<in> set (start_positions ?m rest)"
      by simp
    then have "?m + 2 \<le> start_positions ?m rest ! j'" by (rule start_positions_lower)
    with 0 j show ?thesis by simp
  next
    case (Suc i')
    with "2.prems" j have "start_positions ?m rest ! i' < start_positions ?m rest ! j'"
      by (intro "2.IH") simp_all
    with Suc j show ?thesis by simp
  qed
qed

lemma format_sections_Cons:
  "format_sections ((cfg, c) # rest) =
     LF @ LF @ start cfg @ LF @ LF @ c @ LF @ LF @ end' cfg @
     (if rest = [] then [] else LF @ LF @ js ''---'' @ format_sections rest)"
  by (cases rest) auto

lemma start_positions_correct:
  "i < length ss \<Longrightarrow> length pre = n \<Longrightarrow>
   take (length (start (fst (ss ! i)))) (drop (start_positions n ss ! i) (pre @ format_sections ss))
     = start (fst (ss ! i))"
proof (induction n ss arbitrary: i pre rule: start_positions.induct)
  case (1 n)
  then show ?case by simp
next
  case (2 n cfg c rest)
  show ?case
  proof (cases i)
    case 0
    with "2.prems" show ?thesis
      by (simp add: format_sections_Cons LF_def)
  next
    case (Suc i')
    with "2.prems" have ne: "rest \<noteq> []" by auto
    let ?pre = "pre @ LF @ LF @ start cfg @ LF @ LF @ c @ LF @ LF @ end' cfg @ LF @ LF @ js ''---''"
    have len: "length ?pre = n + 2 + length (start cfg) + 2 + length c + 2 + length (end' cfg) + 5"
      using "2.prems" by (simp add: LF_def js_def)
    have "pre @ format_sections ((cfg, c) # rest) = ?pre @ format_sections rest"
      using ne by (simp add: format_sections_Cons)
    moreover from Suc "2.prems" have "i' < length rest" by simp
    ultimately show ?thesis
      using "2.IH" [OF _ len, of i'] Suc by simp
  qed
qed

lemma format_span:
  "(cfg, c) \<in> set ss \<Longrightarrow>
   \<exists>pre post. format_sections ss = pre @ start cfg @ (LF @ LF @ c @ LF @ LF) @ end' cfg @ post"
proof (induction ss)
  case Nil
  then show ?case by simp
next
  case (Cons x ss)
  obtain cfg' c' where x: "x = (cfg', c')" by (cases x)
  show ?case
  proof (cases "(cfg, c) = x")
    case True
    with x have "format_sections (x # ss) =
        (LF @ LF) @ start cfg @ (LF @ LF @ c @ LF @ LF) @ end' cfg @
          (if ss = [] then [] else LF @ LF @ js ''---'' @ format_sections ss)"
      by (simp add: format_sections_Cons)
    then show ?thesis by blast
  next
    case False
    with Cons obtain pre post where
      "format_sections ss = pre @ start cfg @ (LF @ LF @ c @ LF @ LF) @ end' cfg @ post"
      by auto
    moreover from False Cons.prems have "ss \<noteq> []" by auto
    ultimately have "format_sections (x # ss) =
        (LF @ LF @ start cfg' @ LF @ LF @ c' @ LF @ LF @ end' cfg' @ LF @ LF @ js ''---'' @ pre)
          @ start cfg @ (LF @ LF @ c @ LF @ LF) @ end' cfg @ post"
      using x by (simp add: format_sections_Cons)
    then show ?thesis by blast
  qed
qed

lemma format_holds_start:
  assumes "(cfg, c) \<in> set ss"
  shows "sublist (start cfg) (comment_format ss)"
proof -
  from format_span [OF assms] obtain pre post where
    "format_sections ss = pre @ start cfg @ (LF @ LF @ c @ LF @ LF) @ end' cfg @ post" by blast
  then have "comment_format ss =
      (CEREBRUS_IDENTIFIER @ pre) @ start cfg @ ((LF @ LF @ c @ LF @ LF) @ end' cfg @ post)"
    by (simp add: comment_format_def)
  then show ?thesis unfolding sublist_def by blast
qed

lemma render_span:
  assumes "(k, cfg) \<in> set SECTIONS" "f k = Some c"
  shows "\<exists>pre post. render f = pre @ start cfg @ (LF @ LF @ c @ LF @ LF) @ end' cfg @ post"
proof -
  from assms have "(cfg, c) \<in> set (map rendered (instances f))"
    unfolding set_rendered_instances by blast
  then obtain pre post where
    "format_sections (map rendered (instances f)) = pre @ start cfg @ (LF @ LF @ c @ LF @ LF) @ end' cfg @ post"
    using format_span by blast
  then have "render f = (CEREBRUS_IDENTIFIER @ pre) @ start cfg @ (LF @ LF @ c @ LF @ LF) @ end' cfg @ post"
    by (simp add: render_format comment_format_def)
  then show ?thesis by blast
qed

lemma parsed_render_present:
  assumes "(k, cfg) \<in> set SECTIONS" "f k = Some c"
  shows "parsed (render f) k \<noteq> None"
proof -
  from render_span [of k cfg f c] assms have "regex_exec (start cfg) (end' cfg) (render f) \<noteq> None"
    unfolding regex_exec_None_iff by blast
  with assms(1) show ?thesis by (simp add: parsed_def map_of_SECTIONS)
qed

lemma sorted_wrt_index:
  assumes "sorted_wrt (\<lambda>a b. g a < (g b :: int)) xs" "i < length xs" "j < length xs" "g (xs ! i) < g (xs ! j)"
  shows "i < j"
proof (rule ccontr)
  assume "\<not> i < j"
  then have "j = i \<or> j < i" by auto
  then show False
  proof
    assume "j = i" with assms(4) show False by simp
  next
    assume "j < i"
    with assms(1,2) have "g (xs ! j) < g (xs ! i)" by (simp add: sorted_wrt_iff_nth_less)
    with assms(4) show False by simp
  qed
qed

section \<open>The first match in a text with line breaks\<close>

text \<open>
  A marker holds no line feed, so an occurrence of it in a text lies between two line
  feeds. The pattern matches at the first start marker and captures the text up to the
  first end marker after it.
\<close>

lemma sublist_split:
  assumes "n \<notin> set w" "sublist w (a @ n # b)"
  shows "sublist w a \<or> sublist w b"
proof -
  from assms(2) consider "sublist w a" | "sublist w (n # b)"
    | w1 w2 where "w = w1 @ w2" "suffix w1 a" "prefix w2 (n # b)"
    unfolding sublist_append by blast
  then show ?thesis
  proof cases
    case 1
    then show ?thesis ..
  next
    case 2
    then have "prefix w (n # b) \<or> sublist w b" by (simp add: sublist_Cons_right)
    then show ?thesis
    proof
      assume "prefix w (n # b)"
      with assms(1) have "w = []" by (cases w) auto
      then show ?thesis by simp
    next
      assume "sublist w b" then show ?thesis ..
    qed
  next
    case 3
    from 3(3) assms(1) 3(1) have "w2 = []" by (cases w2) auto
    with 3 show ?thesis by auto
  qed
qed

lemma not_sublist_LF:
  "0x0A \<notin> set w \<Longrightarrow> \<not> sublist w a \<Longrightarrow> \<not> sublist w b \<Longrightarrow> \<not> sublist w (a @ LF @ b)"
  unfolding LF_def using sublist_split [of "0x0A" w a b] by auto

lemma prefix_inside:
  assumes "s \<noteq> []" "a \<noteq> []" "prefix s (a @ s @ r)"
  shows "prefix s (a @ butlast s)"
proof -
  have "a @ s @ r = (a @ butlast s) @ (last s # r)" using assms(1) by simp
  then have "prefix (a @ butlast s) (a @ s @ r)" by (metis prefixI)
  moreover have "length s \<le> length (a @ butlast s)"
    using assms(1,2) by (cases a) auto
  ultimately show ?thesis using assms(3) by (meson prefix_length_prefix)
qed

lemma lazy_until_first:
  "e \<noteq> [] \<Longrightarrow> \<not> sublist e (mid @ butlast e) \<Longrightarrow> lazy_until e (mid @ e @ post) = Some mid"
proof (induction mid)
  case Nil
  then show ?case by (cases e) auto
next
  case (Cons x mid)
  have "\<not> prefix e (x # mid @ e @ post)"
  proof
    assume "prefix e (x # mid @ e @ post)"
    then have "prefix e ((x # mid) @ e @ post)" by simp
    with Cons.prems(1) have "prefix e ((x # mid) @ butlast e)"
      by (intro prefix_inside) auto
    with Cons.prems(2) show False by auto
  qed
  moreover from Cons.prems(2) have "\<not> sublist e (mid @ butlast e)"
    by (simp add: sublist_Cons_right)
  ultimately show ?case using Cons by simp
qed

lemma regex_exec_first:
  "s \<noteq> [] \<Longrightarrow> \<not> sublist s (pre @ butlast s) \<Longrightarrow> lazy_until e rest = Some mid
     \<Longrightarrow> regex_exec s e (pre @ s @ rest) = Some mid"
proof (induction pre)
  case Nil
  then obtain x xs where "s @ rest = x # xs" by (cases s) auto
  moreover have "prefix s (s @ rest)" "drop (length s) (s @ rest) = rest" by simp_all
  ultimately have "regex_exec s e (s @ rest) = Some mid"
    using Nil.prems(3) by (metis option.simps(5) regex_exec.simps(2))
  then show ?case by simp
next
  case (Cons x pre)
  have "\<not> prefix s (x # pre @ s @ rest)"
  proof
    assume "prefix s (x # pre @ s @ rest)"
    then have "prefix s ((x # pre) @ s @ rest)" by simp
    with Cons.prems(1) have "prefix s ((x # pre) @ butlast s)"
      by (intro prefix_inside) auto
    with Cons.prems(2) show False by auto
  qed
  moreover from Cons.prems(2) have "\<not> sublist s (pre @ butlast s)"
    by (simp add: sublist_Cons_right)
  ultimately show ?case using Cons by simp
qed

lemma not_sublist_butlast: "w \<noteq> [] \<Longrightarrow> \<not> sublist w (butlast w)"
  using sublist_length_le [of w "butlast w"] by (cases w rule: rev_cases) auto

lemma regex_exec_span:
  assumes "s \<noteq> []" "e \<noteq> []" "0x0A \<notin> set s" "0x0A \<notin> set e"
    and "\<not> sublist s pre" "\<not> sublist e c"
  shows "regex_exec s e (pre @ LF @ LF @ s @ (LF @ LF @ c @ LF @ LF) @ e @ post)
           = Some (LF @ LF @ c @ LF @ LF)"
proof -
  have "\<not> sublist e ([] @ LF @ [] @ LF @ c @ LF @ [] @ LF @ butlast e)"
    using assms(2,4,6) by (intro not_sublist_LF not_sublist_butlast) simp_all
  then have "lazy_until e ((LF @ LF @ c @ LF @ LF) @ e @ post) = Some (LF @ LF @ c @ LF @ LF)"
    using assms(2) by (intro lazy_until_first) simp_all
  moreover have "\<not> sublist s (pre @ LF @ [] @ LF @ butlast s)"
    using assms(1,3,5) by (intro not_sublist_LF not_sublist_butlast) simp_all
  then have "\<not> sublist s ((pre @ LF @ LF) @ butlast s)" by simp
  ultimately have "regex_exec s e ((pre @ LF @ LF) @ s @ (LF @ LF @ c @ LF @ LF) @ e @ post)
      = Some (LF @ LF @ c @ LF @ LF)"
    using assms(1) by (intro regex_exec_first)
  then show ?thesis by simp
qed

section \<open>Trimming\<close>

lemma is_white_space_LF: "is_white_space 0x0A"
  by (simp add: is_white_space_def)

lemma trim_LF_left: "trim (LF @ s) = trim s"
  by (simp add: trim_def LF_def is_white_space_LF)

lemma trim_LF_right: "trim (s @ LF) = trim s"
proof (cases "\<forall>x \<in> set s. is_white_space x")
  case True
  then have d: "dropWhile is_white_space s = []" by simp
  have e: "dropWhile is_white_space (s @ LF) = []"
    using True by (simp add: LF_def is_white_space_LF)
  show ?thesis unfolding trim_def d e by (rule refl)
next
  case False
  then obtain x where "x \<in> set s" "\<not> is_white_space x" by blast
  then have e: "dropWhile is_white_space (s @ LF) = dropWhile is_white_space s @ LF"
    by (rule dropWhile_append1)
  show ?thesis unfolding trim_def e by (simp add: LF_def is_white_space_LF)
qed

lemma trim_wrapped: "trim (LF @ LF @ c @ LF @ LF) = trim c"
proof -
  have "trim (LF @ LF @ c @ LF @ LF) = trim (((c @ LF) @ LF))"
    by (simp add: trim_LF_left)
  then show ?thesis by (simp only: trim_LF_right)
qed

lemma trim_idem: "trim (trim s) = trim s"
proof -
  let ?P = is_white_space
  define t where "t = dropWhile ?P s"
  define u where "u = dropWhile ?P (rev t)"
  have tr: "trim s = rev u" by (simp add: trim_def t_def u_def)
  have 1: "dropWhile ?P (rev u) = rev u"
  proof (cases "u = []")
    case True
    then show ?thesis by simp
  next
    case False
    then have "rev t \<noteq> []" by (auto simp: u_def)
    have "suffix u (rev t)" unfolding u_def by (rule suffix_dropWhile)
    with False have "last u = last (rev t)" by (auto simp: suffix_def)
    also have "\<dots> = hd t" using \<open>rev t \<noteq> []\<close> by (simp add: last_rev)
    finally have "hd (rev u) = hd t" using False by (simp add: hd_rev)
    moreover have "\<not> ?P (hd t)" using \<open>rev t \<noteq> []\<close> unfolding t_def by (simp add: hd_dropWhile)
    ultimately show ?thesis using False by (simp add: dropWhile_eq_self_iff)
  qed
  have 2: "dropWhile ?P u = u" by (simp add: u_def)
  show ?thesis unfolding tr by (simp add: trim_def 1 2)
qed

section \<open>Markers and the pieces of a rendered comment\<close>

lemma format_sections_append:
  "format_sections (xs @ x # ys) = format_before xs @ format_sections (x # ys)"
proof (induction xs)
  case Nil
  then show ?case by simp
next
  case (Cons a xs)
  obtain cfg c where "a = (cfg, c)" by (cases a)
  with Cons show ?case by (simp add: format_sections_Cons)
qed

lemma SECTIONS_cases:
  assumes "(k, cfg) \<in> set SECTIONS"
  obtains
    "k = js ''BUILD_SIZE''" "start cfg = js ''<!-- Build Size Section -->''"
      "end' cfg = js ''<!-- End Build Size Section -->''"
  | "k = js ''PATH_VALIDATION''" "start cfg = js ''<!-- Path Validation Section -->''"
      "end' cfg = js ''<!-- End Path Validation Section -->''"
  | "k = js ''CHANGE_NOTE''" "start cfg = js ''<!-- Change Note Section -->''"
      "end' cfg = js ''<!-- End Change Note Section -->''"
  using assms unfolding SECTIONS_def by auto

lemma markers_no_LF:
  "(k, cfg) \<in> set SECTIONS \<Longrightarrow> 0x0A \<notin> set (start cfg) \<and> 0x0A \<notin> set (end' cfg)"
  by (erule SECTIONS_cases; simp add: js_def)

lemma start_not_in_guard:
  "(k, cfg) \<in> set SECTIONS \<Longrightarrow> \<not> sublist (start cfg) CEREBRUS_IDENTIFIER"
  by (erule SECTIONS_cases; simp add: js_def sublist_code CEREBRUS_IDENTIFIER_def)

lemma start_not_in_rule:
  "(k, cfg) \<in> set SECTIONS \<Longrightarrow> \<not> sublist (start cfg) (js ''---'')"
  by (erule SECTIONS_cases; simp add: js_def sublist_code)

lemma start_in_start:
  "(k, cfg) \<in> set SECTIONS \<Longrightarrow> (k', cfg') \<in> set SECTIONS \<Longrightarrow> sublist (start cfg) (start cfg')
     \<Longrightarrow> k = k'"
  by (erule SECTIONS_cases; erule SECTIONS_cases; simp add: js_def sublist_code)

lemma start_not_in_end:
  "(k, cfg) \<in> set SECTIONS \<Longrightarrow> (k', cfg') \<in> set SECTIONS \<Longrightarrow> \<not> sublist (start cfg) (end' cfg')"
  by (erule SECTIONS_cases; erule SECTIONS_cases; simp add: js_def sublist_code)

lemma not_sublist_block:
  assumes "0x0A \<notin> set w" "\<not> sublist w P" "\<not> sublist w (start cfg)" "\<not> sublist w c"
    "\<not> sublist w (end' cfg)"
  shows "\<not> sublist w (P @ LF @ LF @ start cfg @ LF @ LF @ c @ LF @ LF @ end' cfg)"
proof -
  from assms(2) have "w \<noteq> []" by auto
  then have "\<not> sublist w []" by simp
  with assms have "\<not> sublist w (P @ LF @ [] @ LF @ start cfg @ LF @ [] @ LF @ c @ LF @ [] @ LF @ end' cfg)"
    by (intro not_sublist_LF)
  then show ?thesis by simp
qed

lemma not_sublist_before:
  assumes "0x0A \<notin> set w" "\<not> sublist w (js ''---'')"
    and "\<forall>(cfg, c) \<in> set xs. \<not> sublist w (start cfg) \<and> \<not> sublist w c \<and> \<not> sublist w (end' cfg)"
    and "\<not> sublist w P"
  shows "\<not> sublist w (P @ format_before xs)"
  using assms(3,4)
proof (induction xs arbitrary: P)
  case Nil
  then show ?case by simp
next
  case (Cons x xs)
  obtain cfg c where x: "x = (cfg, c)" by (cases x)
  let ?B = "P @ LF @ LF @ start cfg @ LF @ LF @ c @ LF @ LF @ end' cfg"
  from Cons.prems x have "\<not> sublist w ?B"
    by (intro not_sublist_block assms(1)) auto
  moreover from Cons.prems(2) have "\<not> sublist w []" by auto
  with assms(1,2) have "\<not> sublist w ([] @ LF @ js ''---'')"
    by (intro not_sublist_LF)
  ultimately have "\<not> sublist w (?B @ LF @ [] @ LF @ js ''---'')"
    using assms(1) by (intro not_sublist_LF [of w ?B "[] @ LF @ js ''---''"])
  then have "\<not> sublist w ((?B @ LF @ LF @ js ''---'') @ format_before xs)"
    using Cons.prems(1) by (intro Cons.IH) auto
  with x show ?case by simp
qed

lemma not_sublist_format:
  assumes "0x0A \<notin> set w" "\<not> sublist w (js ''---'')"
    and "\<forall>(cfg, c) \<in> set ss. \<not> sublist w (start cfg) \<and> \<not> sublist w c \<and> \<not> sublist w (end' cfg)"
    and "\<not> sublist w P"
  shows "\<not> sublist w (P @ format_sections ss)"
proof (cases ss rule: rev_cases)
  case Nil
  with assms(4) show ?thesis by simp
next
  case (snoc xs x)
  obtain cfg c where x: "x = (cfg, c)" by (cases x)
  from assms(3) snoc have "\<not> sublist w (P @ format_before xs)"
    by (intro not_sublist_before assms) auto
  moreover from assms(3) snoc x have "\<not> sublist w (start cfg)" "\<not> sublist w c" "\<not> sublist w (end' cfg)"
    by auto
  ultimately have "\<not> sublist w ((P @ format_before xs) @ LF @ LF @ start cfg @ LF @ LF @ c @ LF @ LF @ end' cfg)"
    using assms(1) by (intro not_sublist_block)
  with snoc x show ?thesis by (simp add: format_sections_append)
qed

lemma other_start:
  assumes "(k, cfg) \<in> set SECTIONS" "(k', cfg') \<in> set SECTIONS" "cfg' \<noteq> cfg"
  shows "\<not> sublist (start cfg) (start cfg')"
proof
  assume "sublist (start cfg) (start cfg')"
  with assms(1,2) have "k = k'" by (rule start_in_start)
  with assms(1,2) have "cfg = cfg'" by (auto dest: eq_key_imp_eq_value [OF distinct_keys])
  with assms(3) show False by simp
qed

lemma marker_freeD:
  "marker_free c \<Longrightarrow> (k, cfg) \<in> set SECTIONS \<Longrightarrow> \<not> sublist (start cfg) c \<and> \<not> sublist (end' cfg) c"
  by (auto simp: marker_free_def)

lemma start_pieces:
  assumes k: "(k, cfg) \<in> set SECTIONS"
    and xs: "\<forall>(cfg', c') \<in> set xs. cfg' \<in> snd ` set SECTIONS \<and> marker_free c'"
    and notin: "cfg \<notin> fst ` set xs"
  shows "\<forall>(cfg', c') \<in> set xs. \<not> sublist (start cfg) (start cfg') \<and> \<not> sublist (start cfg) c'
                  \<and> \<not> sublist (start cfg) (end' cfg')"
proof (intro ballI, clarify)
  fix cfg' c' assume x: "(cfg', c') \<in> set xs"
  with xs have "cfg' \<in> snd ` set SECTIONS" "marker_free c'" by auto
  then obtain k' where k': "(k', cfg') \<in> set SECTIONS" by auto
  from x notin have "cfg' \<noteq> cfg" by force
  with k k' have "\<not> sublist (start cfg) (start cfg')" by (rule other_start)
  moreover from \<open>marker_free c'\<close> k have "\<not> sublist (start cfg) c'" by (simp add: marker_freeD)
  moreover from k k' have "\<not> sublist (start cfg) (end' cfg')" by (rule start_not_in_end)
  ultimately show "\<not> sublist (start cfg) (start cfg') \<and> \<not> sublist (start cfg) c'
                \<and> \<not> sublist (start cfg) (end' cfg')" by simp
qed

lemma start_not_before:
  assumes "(k, cfg) \<in> set SECTIONS"
    and "\<forall>(cfg', c') \<in> set xs. cfg' \<in> snd ` set SECTIONS \<and> marker_free c'"
    and "cfg \<notin> fst ` set xs"
  shows "\<not> sublist (start cfg) (CEREBRUS_IDENTIFIER @ format_before xs)"
  using assms(1) start_pieces [OF assms]
  by (intro not_sublist_before start_not_in_rule start_not_in_guard) (simp_all add: markers_no_LF)

lemma regex_format_present:
  assumes k: "(k, cfg) \<in> set SECTIONS"
    and ss: "\<forall>(cfg', c') \<in> set ss. cfg' \<in> snd ` set SECTIONS \<and> marker_free c'"
    and dist: "distinct (map fst ss)"
    and mem: "(cfg, c) \<in> set ss"
  shows "regex_exec (start cfg) (end' cfg) (comment_format ss) = Some (LF @ LF @ c @ LF @ LF)"
proof -
  from mem obtain xs ys where split: "ss = xs @ (cfg, c) # ys" by (auto dest: split_list)
  with dist have notin: "cfg \<notin> fst ` set xs" by auto
  from ss split have xs: "\<forall>(cfg', c') \<in> set xs. cfg' \<in> snd ` set SECTIONS \<and> marker_free c'"
    by auto
  from k xs notin have pre: "\<not> sublist (start cfg) (CEREBRUS_IDENTIFIER @ format_before xs)"
    by (rule start_not_before)
  from ss mem have "marker_free c" by auto
  with k have "\<not> sublist (end' cfg) c" by (simp add: marker_freeD)
  with pre k have "regex_exec (start cfg) (end' cfg)
          ((CEREBRUS_IDENTIFIER @ format_before xs) @ LF @ LF @ start cfg @ (LF @ LF @ c @ LF @ LF) @ end' cfg
             @ (if ys = [] then [] else LF @ LF @ js ''---'' @ format_sections ys))
        = Some (LF @ LF @ c @ LF @ LF)"
    by (intro regex_exec_span) (simp_all add: markers_nonempty markers_no_LF)
  then show ?thesis
    by (simp add: comment_format_def split format_sections_append format_sections_Cons)
qed

lemma regex_format_absent:
  assumes k: "(k, cfg) \<in> set SECTIONS"
    and ss: "\<forall>(cfg', c') \<in> set ss. cfg' \<in> snd ` set SECTIONS \<and> marker_free c'"
    and notin: "cfg \<notin> fst ` set ss"
  shows "regex_exec (start cfg) (end' cfg) (comment_format ss) = None"
proof -
  have "\<not> sublist (start cfg) (CEREBRUS_IDENTIFIER @ format_sections ss)"
    using k start_pieces [OF k ss notin]
    by (intro not_sublist_format start_not_in_rule start_not_in_guard) (simp_all add: markers_no_LF)
  then show ?thesis by (simp add: comment_format_def regex_exec_no_start)
qed

lemma distinct_rendered: "distinct (map fst (map rendered (instances f)))"
proof -
  have "sorted_wrt (<) (map (priority \<circ> fst) (map rendered (instances f)))"
    using sorted_rendered [of f] by (simp add: sorted_wrt_map)
  then have "distinct (map (priority \<circ> fst) (map rendered (instances f)))"
    by (simp add: strict_sorted_iff)
  then show ?thesis by (metis distinct_map map_map)
qed

section \<open>Parsing a rendered comment\<close>

text \<open>
  When no content holds a registered marker, parsing a rendered comment finds each
  section at its rendered markers and gives back its trimmed content.
\<close>

lemma rendered_entries_free:
  assumes "\<And>k c. registered k \<Longrightarrow> f k = Some c \<Longrightarrow> marker_free c"
  shows "\<forall>(cfg', c') \<in> set (map rendered (instances f)). cfg' \<in> snd ` set SECTIONS \<and> marker_free c'"
proof (intro ballI, clarify)
  fix cfg' c' assume "(cfg', c') \<in> set (map rendered (instances f))"
  then obtain k' where k': "(k', cfg') \<in> set SECTIONS" "f k' = Some c'"
    unfolding set_rendered_instances by blast
  then have "registered k'" by (auto simp: registered_def intro: rev_image_eqI)
  with k' show "cfg' \<in> snd ` set SECTIONS \<and> marker_free c'"
    by (auto intro: assms rev_image_eqI)
qed

lemma parsed_render:
  assumes "registered k"
    and free: "\<And>k' c. registered k' \<Longrightarrow> f k' = Some c \<Longrightarrow> marker_free c"
  shows "parsed (render f) k = map_option trim (f k)"
proof -
  from assms(1) obtain cfg where cfg: "map_of SECTIONS k = Some cfg" "(k, cfg) \<in> set SECTIONS"
    by (rule registered_lookup)
  let ?ss = "map rendered (instances f)"
  have ss: "\<forall>(cfg', c') \<in> set ?ss. cfg' \<in> snd ` set SECTIONS \<and> marker_free c'"
    using free by (rule rendered_entries_free)
  show ?thesis
  proof (cases "f k")
    case None
    have "cfg \<notin> fst ` set ?ss"
    proof
      assume "cfg \<in> fst ` set ?ss"
      then obtain x where "x \<in> set ?ss" "cfg = fst x" by blast
      then have "(cfg, snd x) \<in> set ?ss" by simp
      then obtain k' c' where k': "(k', cfg) \<in> set SECTIONS" "f k' = Some c'"
        unfolding set_rendered_instances by blast
      with cfg(2) have "k' = k" by (auto dest: priority_inj)
      with k' None show False by simp
    qed
    with cfg(2) ss have "regex_exec (start cfg) (end' cfg) (comment_format ?ss) = None"
      by (rule regex_format_absent)
    with None cfg(1) show ?thesis by (simp add: parsed_def render_format)
  next
    case (Some c)
    with cfg(2) have "(cfg, c) \<in> set ?ss"
      unfolding set_rendered_instances by blast
    with cfg(2) ss distinct_rendered
    have "regex_exec (start cfg) (end' cfg) (comment_format ?ss) = Some (LF @ LF @ c @ LF @ LF)"
      by (rule regex_format_present)
    with Some cfg(1) show ?thesis by (simp add: parsed_def render_format trim_wrapped)
  qed
qed

lemma parse_render:
  assumes "\<And>k c. registered k \<Longrightarrow> f k = Some c \<Longrightarrow> marker_free c"
  shows "parseCommentSections (render f) = instances (\<lambda>k. map_option trim (f k))"
  unfolding parse_instances
  by (rule instances_cong) (simp add: parsed_render assms)

lemma map_of_section_set:
  assumes "section_set ss"
  shows "map_of (instances (contents ss)) = map_of ss"
proof -
  from assms have "distinct (map fst ss)" by (simp add: section_set_def)
  moreover have "distinct (map fst (instances (contents ss)))" by (rule distinct_instances)
  moreover have "set (instances (contents ss)) = set ss"
    using section_set_eq [OF assms] by simp
  ultimately show ?thesis by (simp add: map_of_inject_set)
qed

lemma parsed_trimmed: "map_option trim (parsed b k) = parsed b k"
  by (simp add: parsed_def trim_idem option.map_comp comp_def split: option.splits)

lemma parsed_Some:
  assumes "registered k" "parsed b k = Some c"
  obtains s where "(k, s) \<in> set (parseCommentSections b)" "content s = c"
proof -
  from assms(1) obtain cfg where "(k, cfg) \<in> set SECTIONS" by (rule registered_lookup)
  with assms(2) have "(k, \<lparr>content = c, config = Some cfg\<rparr>) \<in> set (parseCommentSections b)"
    unfolding parse_instances set_instances by blast
  then show thesis using that by simp
qed

lemma reparse_stable:
  assumes "\<forall>(k, s) \<in> set (parseCommentSections b). marker_free (content s)"
  shows "parseCommentSections (render (parsed b)) = parseCommentSections b"
proof -
  have "marker_free c" if "registered k" "parsed b k = Some c" for k c
    using that assms by (auto elim!: parsed_Some)
  then have "parseCommentSections (render (parsed b)) = instances (\<lambda>k. map_option trim (parsed b k))"
    by (rule parse_render)
  then show ?thesis by (simp add: parsed_trimmed parse_instances)
qed

section \<open>First occurrences of the rendered markers\<close>

lemma start_positions_append:
  "start_positions n (xs @ x # ys) ! length xs = n + length (format_before xs) + 2"
proof (induction xs arbitrary: n)
  case Nil
  obtain cfg c where "x = (cfg, c)" by (cases x)
  then show ?case by simp
next
  case (Cons a xs)
  obtain cfg c where "a = (cfg, c)" by (cases a)
  with Cons show ?case by (simp add: LF_def js_def)
qed

lemma first_at_append:
  assumes "w \<noteq> []" "\<not> sublist w (pre @ butlast w)"
  shows "first_at w (length pre) (pre @ w @ post)"
proof -
  have "take (length pre + length w - 1) (pre @ w @ post) = pre @ butlast w"
    using assms(1) by (cases w rule: rev_cases) simp_all
  with assms(2) show ?thesis by (simp add: first_at_def)
qed

lemma rendered_start_first:
  assumes k: "(k, cfg) \<in> set SECTIONS"
    and ss: "\<forall>(cfg', c') \<in> set ss. cfg' \<in> snd ` set SECTIONS \<and> marker_free c'"
    and dist: "distinct (map fst ss)"
    and i: "i < length ss" "fst (ss ! i) = cfg"
  shows "first_at (start cfg) (start_positions (length CEREBRUS_IDENTIFIER) ss ! i) (comment_format ss)"
proof -
  obtain c where c: "ss ! i = (cfg, c)" using i(2) by (cases "ss ! i") auto
  define xs ys where "xs = take i ss" and "ys = drop (Suc i) ss"
  have split: "ss = xs @ (cfg, c) # ys"
    unfolding xs_def ys_def using id_take_nth_drop [OF i(1)] c by simp
  have len: "length xs = i" using i(1) by (simp add: xs_def)
  from split dist have notin: "cfg \<notin> fst ` set xs" by auto
  from ss split have xs: "\<forall>(cfg', c') \<in> set xs. cfg' \<in> snd ` set SECTIONS \<and> marker_free c'"
    by auto
  let ?pre = "CEREBRUS_IDENTIFIER @ format_before xs"
  from k xs notin have "\<not> sublist (start cfg) ?pre" by (rule start_not_before)
  moreover from k have ne: "start cfg \<noteq> []" and nl: "0x0A \<notin> set (start cfg)"
    by (simp_all add: markers_nonempty markers_no_LF)
  ultimately have "\<not> sublist (start cfg) (?pre @ LF @ [] @ LF @ butlast (start cfg))"
    by (intro not_sublist_LF not_sublist_butlast) simp_all
  then have "\<not> sublist (start cfg) ((?pre @ LF @ LF) @ butlast (start cfg))" by simp
  with ne have "first_at (start cfg) (length (?pre @ LF @ LF))
      ((?pre @ LF @ LF) @ start cfg @ (LF @ LF @ c @ LF @ LF @ end' cfg
             @ (if ys = [] then [] else LF @ LF @ js ''---'' @ format_sections ys)))"
    by (rule first_at_append)
  moreover have "length (?pre @ LF @ LF) = start_positions (length CEREBRUS_IDENTIFIER) ss ! i"
    unfolding split len [symmetric] start_positions_append by (simp add: LF_def)
  moreover have "comment_format ss = (?pre @ LF @ LF) @ start cfg @ (LF @ LF @ c @ LF @ LF @ end' cfg
             @ (if ys = [] then [] else LF @ LF @ js ''---'' @ format_sections ys))"
    by (simp add: comment_format_def split format_sections_append format_sections_Cons)
  ultimately show ?thesis by simp
qed

lemma marker_free_trim: "marker_free c \<Longrightarrow> marker_free (trim c)"
proof -
  have "sublist (trim c) c"
  proof -
    have "sublist (rev (trim c)) (rev c)"
      unfolding trim_def rev_rev_ident
      by (rule sublist_order.order.trans [OF sublist_dropWhile]) (simp add: sublist_rev_left)
    then show ?thesis by simp
  qed
  then have "sublist w (trim c) \<Longrightarrow> sublist w c" for w
    by (rule sublist_order.order.trans [rotated])
  then show "marker_free c \<Longrightarrow> marker_free (trim c)"
    by (auto simp: marker_free_def)
qed

text \<open>
  When no content holds a registered marker, the start markers rendered for \<open>A\<close> and
  \<open>B\<close> are also the first occurrences of the two marker strings in the output.
\<close>

lemma order_first_occurrence:
  assumes "(A, cfgA) \<in> set SECTIONS" "(B, cfgB) \<in> set SECTIONS" "priority cfgA < priority cfgB"
    and "marker_free ca" "marker_free cb"
    and "\<forall>(k, s) \<in> set (parseCommentSections body). marker_free (content s)"
  shows "\<exists>out1 out p q.
      updateCommentSection body B cb = Inr out1 \<and> updateCommentSection out1 A ca = Inr out \<and>
      first_at (start cfgA) p out \<and> first_at (start cfgB) q out \<and> p < q"
proof -
  have rA: "registered A" and rB: "registered B"
    using assms(1,2) by (auto simp: registered_def intro: rev_image_eqI)
  from assms(1-3) have AB: "A \<noteq> B" by (auto dest: eq_key_imp_eq_value [OF distinct_keys])
  let ?f1 = "(parsed body)(B \<mapsto> cb)"
  let ?out1 = "render ?f1"
  let ?f2 = "(parsed ?out1)(A \<mapsto> ca)"
  let ?ss = "map rendered (instances ?f2)"
  let ?pos = "start_positions (length CEREBRUS_IDENTIFIER) ?ss"
  have free1: "marker_free c" if "registered k" "?f1 k = Some c" for k c
  proof (cases "k = B")
    case True
    with that assms(5) show ?thesis by simp
  next
    case False
    with that have "parsed body k = Some c" by simp
    with that(1) assms(6) show ?thesis by (auto elim!: parsed_Some)
  qed
  have free2: "marker_free c" if "registered k" "?f2 k = Some c" for k c
  proof (cases "k = A")
    case True
    with that assms(4) show ?thesis by simp
  next
    case False
    have "parsed ?out1 k = map_option trim (?f1 k)"
      using that(1) free1 by (rule parsed_render)
    with False that(2) obtain c0 where c0: "?f1 k = Some c0" "c = trim c0" by auto
    from that(1) c0(1) have "marker_free c0" by (rule free1)
    with c0(2) show ?thesis by (simp add: marker_free_trim)
  qed
  have ss: "\<forall>(cfg', c') \<in> set ?ss. cfg' \<in> snd ` set SECTIONS \<and> marker_free c'"
    using free2 by (rule rendered_entries_free)
  have u1: "updateCommentSection body B cb = Inr ?out1" by (rule update_render [OF rB])
  have u2: "updateCommentSection ?out1 A ca = Inr (comment_format ?ss)"
    by (simp add: update_render [OF rA] render_format)
  have "parsed ?out1 B \<noteq> None"
    using assms(2) by (rule parsed_render_present [of B cfgB ?f1 cb]) simp
  then obtain c' where "?f2 B = Some c'" using AB by auto
  with assms(2) have "(cfgB, c') \<in> set ?ss"
    unfolding set_rendered_instances by blast
  then obtain j where j: "j < length ?ss" "?ss ! j = (cfgB, c')"
    by (auto simp: in_set_conv_nth)
  from assms(1) have "(cfgA, ca) \<in> set ?ss"
    unfolding set_rendered_instances by (intro CollectI exI [of _ A] exI [of _ cfgA] exI [of _ ca]) simp
  then obtain i where i: "i < length ?ss" "?ss ! i = (cfgA, ca)"
    by (auto simp: in_set_conv_nth)
  have "i < j"
    using sorted_rendered i(1) j(1) by (rule sorted_wrt_index) (simp add: i j assms(3))
  then have "?pos ! i < ?pos ! j" using j(1) by (rule start_positions_mono)
  moreover have "first_at (start cfgA) (?pos ! i) (comment_format ?ss)"
    using assms(1) ss distinct_rendered i(1) by (rule rendered_start_first) (simp add: i(2))
  moreover have "first_at (start cfgB) (?pos ! j) (comment_format ?ss)"
    using assms(2) ss distinct_rendered j(1) by (rule rendered_start_first) (simp add: j(2))
  ultimately show ?thesis using u1 u2 by blast
qed

section \<open>Evaluation on concrete comments\<close>

lemmas eval_defs = js_def LF_def CEREBRUS_IDENTIFIER_def SECTIONS_def parseCommentSections_def
  trim_def is_white_space_def marker_free_def sublist_code

lemmas eval_ops = eval_defs updateCommentSection_def removeCommentSection_def SECTIONS_get_def
  obj_set_def obj_delete_def buildComment_def field_def by_priority_def negative_def

lemma parse_example:
  "parseCommentSections (js ''<!-- Build Size Section -->12 KB<!-- End Build Size Section -->'') = [(js ''BUILD_SIZE'', \<lparr>content = js ''12 KB'', config = Some \<lparr>priority = 1, start = js ''<!-- Build Size Section -->'', end' = js ''<!-- End Build Size Section -->''\<rparr>\<rparr>)]"
  by (simp add: eval_defs)

lemma marker_free_examples:
  "marker_free (js ''12 KB'')" "marker_free (js ''All good'')" "marker_free (js ''Size: +1KB'')"
  by (simp_all add: eval_defs)

section \<open>Unknown identifiers\<close>

text \<open>
  C5. Each of the three operations is to throw exactly when the identifier is not in the
  registry. The guard \<open>!SECTIONS[sectionKey]\<close> reads inherited properties too: for the
  unregistered name \<open>toString\<close> none of the operations throws. \<open>createCommentWithSection\<close>
  and \<open>updateCommentSection\<close> return a body whose section has no markers, and
  \<open>removeCommentSection\<close> returns \<open>null\<close>.
\<close>

theorem inherited_key_accepted:
  "\<not> registered (js ''toString'') \<and>
   createCommentWithSection (js ''toString'') (js ''x'') =
     Inr (js ''<!-- TiddlyWiki PR report -->\<newline>\<newline>\<newline>\<newline>x\<newline>\<newline>'') \<and>
   updateCommentSection [] (js ''toString'') (js ''x'') =
     Inr (js ''<!-- TiddlyWiki PR report -->\<newline>\<newline>\<newline>\<newline>x\<newline>\<newline>'') \<and>
   removeCommentSection [] (js ''toString'') = Inr None"
proof -
  have k: "\<not> registered (js ''toString'')" "SECTIONS_get (js ''toString'') = Inherited"
    "js ''toString'' \<noteq> js ''__proto__''"
    by (simp_all add: registered_iff SECTIONS_get_def SECTIONS_def Object_prototype_names_def js_def)
  have b: "buildComment [(js ''toString'', \<lparr>content = js ''x'', config = None\<rparr>)] =
             js ''<!-- TiddlyWiki PR report -->\<newline>\<newline>\<newline>\<newline>x\<newline>\<newline>''"
    by (simp add: buildComment_def field_def CEREBRUS_IDENTIFIER_def LF_def js_def)
  from k b show ?thesis
    by (simp add: createCommentWithSection_def updateCommentSection_def removeCommentSection_def
        parse_empty obj_set_def obj_delete_def)
qed

section \<open>Deletion\<close>

text \<open>
  C6. Deletion collapse: when the parse of the body yields exactly one section, with
  identifier \<open>X\<close>, \<open>removeCommentSection body X\<close> returns \<open>null\<close>; when the parse yields
  no section, it returns \<open>null\<close> for every registered identifier. In both cases the
  result is a value (\<open>Inr\<close>), not an error.
\<close>

theorem deletion_collapse:
  "(map fst (parseCommentSections body) = [X] \<longrightarrow> removeCommentSection body X = Inr None) \<and>
   (parseCommentSections body = [] \<and> registered X \<longrightarrow> removeCommentSection body X = Inr None)"
proof (intro conjI impI)
  assume one: "map fst (parseCommentSections body) = [X]"
  then obtain s where "(X, s) \<in> set (parseCommentSections body)"
    by (cases "parseCommentSections body") auto
  then have "truthy (SECTIONS_get X)"
    by (blast intro: registered_truthy parsed_registered)
  with one show "removeCommentSection body X = Inr None"
    by (simp add: removeCommentSection_def obj_delete_single)
next
  assume "parseCommentSections body = [] \<and> registered X"
  then show "removeCommentSection body X = Inr None"
    by (simp add: removeCommentSection_def obj_delete_def registered_truthy)
qed

theorem deletion_collapse_witness:
  "map fst (parseCommentSections
      (js ''<!-- Change Note Section -->ok<!-- End Change Note Section -->'')) = [js ''CHANGE_NOTE''] \<and>
   removeCommentSection (js ''<!-- Change Note Section -->ok<!-- End Change Note Section -->'')
      (js ''CHANGE_NOTE'') = Inr None \<and>
   parseCommentSections [] = [] \<and> registered (js ''BUILD_SIZE'') \<and>
   removeCommentSection [] (js ''BUILD_SIZE'') = Inr None"
proof -
  let ?b = "js ''<!-- Change Note Section -->ok<!-- End Change Note Section -->''"
  have one: "map fst (parseCommentSections ?b) = [js ''CHANGE_NOTE'']"
    by (simp add: parseCommentSections_def SECTIONS_def js_def)
  have two: "parseCommentSections [] = [] \<and> registered (js ''BUILD_SIZE'')"
    by (simp add: parse_empty registered_iff)
  have r1: "removeCommentSection ?b (js ''CHANGE_NOTE'') = Inr None"
    using deletion_collapse [of ?b "js ''CHANGE_NOTE''"] one by (simp only: simp_thms)
  have r2: "removeCommentSection [] (js ''BUILD_SIZE'') = Inr None"
    using deletion_collapse [of "[]" "js ''BUILD_SIZE''"] two by (simp only: simp_thms)
  from one two r1 r2 show ?thesis by (simp only: simp_thms)
qed

section \<open>Fresh comments\<close>

text \<open>
  C8. For every registered identifier and every content string,
  \<open>createCommentWithSection\<close> returns the same string as \<open>updateCommentSection\<close> on the
  empty body: the guard marker followed by that one section.
\<close>

theorem createFresh_equiv:
  assumes "registered sectionKey"
  shows "createCommentWithSection sectionKey c = updateCommentSection [] sectionKey c \<and>
         (\<exists>cfg. map_of SECTIONS sectionKey = Some cfg \<and>
            createCommentWithSection sectionKey c =
              Inr (CEREBRUS_IDENTIFIER @ LF @ LF @ start cfg @ LF @ LF @ c @ LF @ LF @ end' cfg))"
proof -
  from assms obtain cfg
    where cfg: "map_of SECTIONS sectionKey = Some cfg" "SECTIONS_get sectionKey = Own cfg"
    by (rule registered_lookup)
  have "createCommentWithSection sectionKey c =
          Inr (buildComment [(sectionKey, \<lparr>content = c, config = Some cfg\<rparr>)])"
    by (simp add: createCommentWithSection_def cfg)
  moreover have "updateCommentSection [] sectionKey c =
          Inr (buildComment [(sectionKey, \<lparr>content = c, config = Some cfg\<rparr>)])"
    by (simp add: updateCommentSection_def cfg parse_empty obj_set_def registered_not_proto [OF assms])
  ultimately show ?thesis using cfg(1) by (simp add: build_single)
qed

theorem createFresh_equiv_witness:
  "registered (js ''BUILD_SIZE'') \<and>
   createCommentWithSection (js ''BUILD_SIZE'') (js ''Size: +1KB'') =
     updateCommentSection [] (js ''BUILD_SIZE'') (js ''Size: +1KB'')"
  using createFresh_equiv [of "js ''BUILD_SIZE''" "js ''Size: +1KB''"]
  by (simp add: registered_iff)

section \<open>Text outside the sections\<close>

text \<open>
  C10. The results of \<open>updateCommentSection\<close> and \<open>removeCommentSection\<close> depend on the
  body only through its parsed sections: two bodies with the same parse give the same
  result for every identifier and content. Whatever else a body holds is discarded.
\<close>

theorem parse_determines_output:
  assumes "parseCommentSections b1 = parseCommentSections b2"
  shows "updateCommentSection b1 sectionKey c = updateCommentSection b2 sectionKey c \<and>
         removeCommentSection b1 sectionKey = removeCommentSection b2 sectionKey"
  using assms by (simp add: updateCommentSection_def removeCommentSection_def)

theorem parse_determines_output_witness:
  "parseCommentSections [] = parseCommentSections (js ''stray prose'') \<and>
   updateCommentSection [] (js ''CHANGE_NOTE'') (js ''ok'') =
     updateCommentSection (js ''stray prose'') (js ''CHANGE_NOTE'') (js ''ok'') \<and>
   removeCommentSection [] (js ''CHANGE_NOTE'') =
     removeCommentSection (js ''stray prose'') (js ''CHANGE_NOTE'')"
proof -
  have "parseCommentSections (js ''stray prose'') = []"
    by (rule parse_no_lt) (simp add: js_def)
  then have h: "parseCommentSections [] = parseCommentSections (js ''stray prose'')"
    by (simp add: parse_empty)
  from parse_determines_output [OF h, of "js ''CHANGE_NOTE''" "js ''ok''"] h show ?thesis
    by simp
qed

section \<open>Corrupted sections\<close>

text \<open>
  C9. Graceful degradation: when the body holds no start marker of a section that is
  followed by the end marker of that section (the start marker is there without a
  closing marker after it, or it is not there at all), \<open>parseCommentSections\<close> leaves
  the section out of the mapping it returns. The parser has no error result.
\<close>

theorem graceful_degradation:
  assumes "(k, cfg) \<in> set SECTIONS"
    and "\<not> (\<exists>pre mid post. body = pre @ start cfg @ mid @ end' cfg @ post)"
  shows "map_of (parseCommentSections body) k = None"
proof -
  have "regex_exec (start cfg') (end' cfg') body = None" if "(k, cfg') \<in> set SECTIONS" for cfg'
  proof -
    from that assms(1) distinct_keys have "cfg' = cfg"
      by (meson eq_key_imp_eq_value)
    with assms(2) show ?thesis by (simp add: regex_exec_None_iff)
  qed
  then have "k \<notin> fst ` set (parseCommentSections body)"
    unfolding parseCommentSections_def by (intro parse_entries_absent) blast
  then show ?thesis by (simp add: map_of_eq_None_iff)
qed

theorem graceful_degradation_witness:
  "(js ''BUILD_SIZE'', \<lparr>priority = 1, start = js ''<!-- Build Size Section -->'',
       end' = js ''<!-- End Build Size Section -->''\<rparr>) \<in> set SECTIONS \<and>
   \<not> (\<exists>pre mid post. js ''<!-- Build Size Section --> 12 KB'' =
         pre @ js ''<!-- Build Size Section -->'' @ mid @ js ''<!-- End Build Size Section -->'' @ post) \<and>
   map_of (parseCommentSections (js ''<!-- Build Size Section --> 12 KB'')) (js ''BUILD_SIZE'') = None"
proof -
  let ?cfg = "\<lparr>priority = 1, start = js ''<!-- Build Size Section -->'',
       end' = js ''<!-- End Build Size Section -->''\<rparr>"
  let ?b = "js ''<!-- Build Size Section --> 12 KB''"
  have a: "(js ''BUILD_SIZE'', ?cfg) \<in> set SECTIONS"
    by (simp add: SECTIONS_def)
  have b: "\<not> (\<exists>pre mid post. ?b = pre @ start ?cfg @ mid @ end' ?cfg @ post)"
  proof
    assume "\<exists>pre mid post. ?b = pre @ start ?cfg @ mid @ end' ?cfg @ post"
    then obtain pre mid post where "?b = pre @ start ?cfg @ mid @ end' ?cfg @ post" by blast
    then have "length ?b = length (pre @ start ?cfg @ mid @ end' ?cfg @ post)" by simp
    then show False by (simp add: js_def)
  qed
  from graceful_degradation [OF a b] a b show ?thesis by simp
qed

section \<open>The format of rendered comments\<close>

text \<open>
  For a registered identifier and every content string, the body that
  \<open>createCommentWithSection\<close> returns is \<open>comment_format\<close> of the one section, and the
  body that \<open>updateCommentSection\<close> returns is \<open>comment_format\<close> of the sections of the
  updated mapping (the parsed sections of the body, with the given section set to the
  given content) in ascending priority: guard marker first, one blank line around each
  marker, consecutive sections joined by a \<open>---\<close> line, nothing after the last end
  marker. The content is rendered as it is passed.
\<close>

lemma rendered_format:
  assumes "registered sectionKey"
  shows "\<exists>cfg ss. map_of SECTIONS sectionKey = Some cfg \<and>
      createCommentWithSection sectionKey c = Inr (comment_format [(cfg, c)]) \<and>
      updateCommentSection body sectionKey c = Inr (comment_format ss) \<and>
      sorted_wrt (\<lambda>a b. priority (fst a) < priority (fst b)) ss \<and>
      set ss = (\<lambda>s. (the (config s), content s)) `
                 ran ((map_of (parseCommentSections body))
                        (sectionKey \<mapsto> \<lparr>content = c, config = Some cfg\<rparr>))"
proof -
  from assms obtain cfg where cfg: "map_of SECTIONS sectionKey = Some cfg" "SECTIONS_get sectionKey = Own cfg"
    by (rule registered_lookup)
  let ?ss = "map rendered (instances ((parsed body)(sectionKey \<mapsto> c)))"
  have "createCommentWithSection sectionKey c = Inr (comment_format [(cfg, c)])"
    by (simp add: createCommentWithSection_def cfg build_single comment_format_def)
  moreover have "updateCommentSection body sectionKey c = Inr (comment_format ?ss)"
    by (simp add: update_render [OF assms] render_format)
  moreover have "sorted_wrt (\<lambda>a b. priority (fst a) < priority (fst b)) ?ss"
    by (rule sorted_rendered)
  moreover have "set ?ss = (\<lambda>s. (the (config s), content s)) `
                 ran ((map_of (parseCommentSections body))
                        (sectionKey \<mapsto> \<lparr>content = c, config = Some cfg\<rparr>))"
    unfolding ran_updated_parse [OF cfg(1)] by (rule set_rendered_instances)
  ultimately show ?thesis using cfg(1) by blast
qed

lemma rendered_format_example:
  "registered (js ''CHANGE_NOTE'') \<and>
   (\<exists>cfg ss. map_of SECTIONS (js ''CHANGE_NOTE'') = Some cfg \<and>
      createCommentWithSection (js ''CHANGE_NOTE'') (js ''All good'') =
        Inr (comment_format [(cfg, js ''All good'')]) \<and>
      updateCommentSection (js ''<!-- Build Size Section -->12 KB<!-- End Build Size Section -->'') (js ''CHANGE_NOTE'') (js ''All good'') =
        Inr (comment_format ss) \<and>
      sorted_wrt (\<lambda>a b. priority (fst a) < priority (fst b)) ss \<and>
      set ss = (\<lambda>s. (the (config s), content s)) `
                 ran ((map_of (parseCommentSections (js ''<!-- Build Size Section -->12 KB<!-- End Build Size Section -->'')))
                        (js ''CHANGE_NOTE'' \<mapsto> \<lparr>content = js ''All good'', config = Some cfg\<rparr>)))"
proof -
  have r: "registered (js ''CHANGE_NOTE'')" by (simp add: registered_iff)
  from r rendered_format [OF r, of "js ''All good''" "js ''<!-- Build Size Section -->12 KB<!-- End Build Size Section -->''"] show ?thesis
    by (simp only: simp_thms)
qed

text \<open>
  C2. Every body that \<open>createCommentWithSection\<close> or \<open>updateCommentSection\<close> returns is
  to follow the format: guard marker, then for each section a blank line, its start
  marker, a blank line, its content, a blank line and its end marker. For registered
  identifiers it does (\<open>rendered_format\<close>). The guard \<open>!SECTIONS[sectionKey]\<close> also lets the
  names inherited from \<open>Object.prototype\<close> through: for the unregistered name
  \<open>constructor\<close> both operations return a body whose section has neither start nor end
  marker, which is the format of no sequence of registry sections.
\<close>

theorem inherited_key_breaks_format:
  "\<not> registered (js ''constructor'') \<and>
   createCommentWithSection (js ''constructor'') (js ''x'') = Inr (js ''<!-- TiddlyWiki PR report -->\<newline>\<newline>\<newline>\<newline>x\<newline>\<newline>'') \<and>
   updateCommentSection [] (js ''constructor'') (js ''x'') = Inr (js ''<!-- TiddlyWiki PR report -->\<newline>\<newline>\<newline>\<newline>x\<newline>\<newline>'') \<and>
   \<not> (\<exists>ss. fst ` set ss \<subseteq> snd ` set SECTIONS \<and> js ''<!-- TiddlyWiki PR report -->\<newline>\<newline>\<newline>\<newline>x\<newline>\<newline>'' = comment_format ss)"
proof -
  let ?b = "js ''<!-- TiddlyWiki PR report -->\<newline>\<newline>\<newline>\<newline>x\<newline>\<newline>''"
  have k: "\<not> registered (js ''constructor'')" "SECTIONS_get (js ''constructor'') = Inherited"
    "js ''constructor'' \<noteq> js ''__proto__''"
    by (simp_all add: registered_iff SECTIONS_get_def SECTIONS_def Object_prototype_names_def js_def)
  have b: "buildComment [(js ''constructor'', \<lparr>content = js ''x'', config = None\<rparr>)] = ?b"
    by (simp add: buildComment_def field_def CEREBRUS_IDENTIFIER_def LF_def js_def)
  from k b have ops: "createCommentWithSection (js ''constructor'') (js ''x'') = Inr ?b"
    "updateCommentSection [] (js ''constructor'') (js ''x'') = Inr ?b"
    by (simp_all add: createCommentWithSection_def updateCommentSection_def parse_empty obj_set_def)
  have no_start: "\<not> sublist (start cfg) ?b" if "(k, cfg) \<in> set SECTIONS" for k cfg
    using that by (rule SECTIONS_cases) (simp_all add: js_def sublist_code)
  have "?b \<noteq> comment_format ss" if ss: "fst ` set ss \<subseteq> snd ` set SECTIONS" for ss
  proof (cases ss)
    case Nil
    have "length ?b \<noteq> length CEREBRUS_IDENTIFIER"
      by (simp add: CEREBRUS_IDENTIFIER_def js_def)
    then have "?b \<noteq> CEREBRUS_IDENTIFIER" by (rule contrapos_nn) (rule arg_cong)
    with Nil show ?thesis by (simp add: comment_format_def)
  next
    case (Cons x rest)
    obtain cfg c where x: "x = (cfg, c)" by (cases x)
    with Cons ss have "cfg \<in> snd ` set SECTIONS" by auto
    then obtain k where "(k, cfg) \<in> set SECTIONS" by auto
    then have "\<not> sublist (start cfg) ?b" by (rule no_start)
    moreover from Cons x have "sublist (start cfg) (comment_format ss)"
      by (intro format_holds_start [of cfg c]) simp
    ultimately show ?thesis by auto
  qed
  then have "\<not> (\<exists>ss. fst ` set ss \<subseteq> snd ` set SECTIONS \<and> ?b = comment_format ss)" by blast
  with k(1) ops show ?thesis by (intro conjI)
qed

section \<open>Render order\<close>

text \<open>
  C4. Order invariance: for registered identifiers \<open>A\<close> and \<open>B\<close> with
  \<open>priority A < priority B\<close>, every body and all contents, upserting \<open>B\<close> and then \<open>A\<close>
  returns the rendering of a sequence of sections in which section \<open>A\<close> comes before
  section \<open>B\<close>, and the start marker rendered for \<open>A\<close> stands at a smaller position of
  the output than the start marker rendered for \<open>B\<close>.
\<close>

theorem order_invariance:
  assumes "(A, cfgA) \<in> set SECTIONS" "(B, cfgB) \<in> set SECTIONS" "priority cfgA < priority cfgB"
  shows "\<exists>out1 out ss i j.
      updateCommentSection body B cb = Inr out1 \<and> updateCommentSection out1 A ca = Inr out \<and>
      out = comment_format ss \<and> distinct (map fst ss) \<and>
      i < j \<and> j < length ss \<and> ss ! i = (cfgA, ca) \<and> fst (ss ! j) = cfgB \<and>
      start_positions (length CEREBRUS_IDENTIFIER) ss ! i
        < start_positions (length CEREBRUS_IDENTIFIER) ss ! j \<and>
      take (length (start cfgA)) (drop (start_positions (length CEREBRUS_IDENTIFIER) ss ! i) out)
        = start cfgA \<and>
      take (length (start cfgB)) (drop (start_positions (length CEREBRUS_IDENTIFIER) ss ! j) out)
        = start cfgB"
proof -
  have rA: "registered A" and rB: "registered B"
    using assms(1,2) by (auto simp: registered_def intro: rev_image_eqI)
  from assms have AB: "A \<noteq> B" by (auto dest: eq_key_imp_eq_value [OF distinct_keys])
  let ?f1 = "(parsed body)(B \<mapsto> cb)"
  let ?out1 = "render ?f1"
  let ?f2 = "(parsed ?out1)(A \<mapsto> ca)"
  let ?ss = "map rendered (instances ?f2)"
  let ?pos = "start_positions (length CEREBRUS_IDENTIFIER) ?ss"
  have u1: "updateCommentSection body B cb = Inr ?out1" by (rule update_render [OF rB])
  have u2: "updateCommentSection ?out1 A ca = Inr (comment_format ?ss)"
    by (simp add: update_render [OF rA] render_format)
  have "parsed ?out1 B \<noteq> None"
    using assms(2) by (rule parsed_render_present [of B cfgB ?f1 cb]) simp
  then obtain c' where "?f2 B = Some c'" using AB by auto
  with assms(2) have "(cfgB, c') \<in> set ?ss"
    unfolding set_rendered_instances by blast
  then obtain j where j: "j < length ?ss" "?ss ! j = (cfgB, c')"
    by (auto simp: in_set_conv_nth)
  from assms(1) have "(cfgA, ca) \<in> set ?ss"
    unfolding set_rendered_instances by (intro CollectI exI [of _ A] exI [of _ cfgA] exI [of _ ca]) simp
  then obtain i where i: "i < length ?ss" "?ss ! i = (cfgA, ca)"
    by (auto simp: in_set_conv_nth)
  have sorted: "sorted_wrt (\<lambda>a b. priority (fst a) < priority (fst b)) ?ss"
    by (rule sorted_rendered)
  have ij: "i < j"
    using sorted i(1) j(1) by (rule sorted_wrt_index) (simp add: i j assms(3))
  have dist: "distinct (map fst ?ss)" by (rule distinct_rendered)
  have pos: "?pos ! i < ?pos ! j" using ij j(1) by (rule start_positions_mono)
  have mA: "take (length (start cfgA)) (drop (?pos ! i) (comment_format ?ss)) = start cfgA"
    using start_positions_correct [OF i(1) refl, of CEREBRUS_IDENTIFIER] i(2)
    by (simp add: comment_format_def)
  have mB: "take (length (start cfgB)) (drop (?pos ! j) (comment_format ?ss)) = start cfgB"
    using start_positions_correct [OF j(1) refl, of CEREBRUS_IDENTIFIER] j(2)
    by (simp add: comment_format_def)
  from u1 u2 dist ij j i mA mB pos show ?thesis
    by (intro exI [of _ ?out1] exI [of _ "comment_format ?ss"] exI [of _ ?ss] exI [of _ i] exI [of _ j]) simp
qed

theorem order_invariance_witness:
  "(js ''BUILD_SIZE'', \<lparr>priority = 1, start = js ''<!-- Build Size Section -->'', end' = js ''<!-- End Build Size Section -->''\<rparr>) \<in> set SECTIONS \<and>
   (js ''CHANGE_NOTE'', \<lparr>priority = 3, start = js ''<!-- Change Note Section -->'', end' = js ''<!-- End Change Note Section -->''\<rparr>) \<in> set SECTIONS \<and>
   priority \<lparr>priority = 1, start = js ''<!-- Build Size Section -->'', end' = js ''<!-- End Build Size Section -->''\<rparr> < priority \<lparr>priority = 3, start = js ''<!-- Change Note Section -->'', end' = js ''<!-- End Change Note Section -->''\<rparr> \<and>
   (\<exists>out1 out.
      updateCommentSection [] (js ''CHANGE_NOTE'') (js ''All good'') = Inr out1 \<and>
      updateCommentSection out1 (js ''BUILD_SIZE'') (js ''Size: +1KB'') = Inr out)"
proof -
  have a: "(js ''BUILD_SIZE'', \<lparr>priority = 1, start = js ''<!-- Build Size Section -->'', end' = js ''<!-- End Build Size Section -->''\<rparr>) \<in> set SECTIONS"
    and b: "(js ''CHANGE_NOTE'', \<lparr>priority = 3, start = js ''<!-- Change Note Section -->'', end' = js ''<!-- End Change Note Section -->''\<rparr>) \<in> set SECTIONS"
    by (simp_all add: SECTIONS_def)
  have c: "priority \<lparr>priority = 1, start = js ''<!-- Build Size Section -->'', end' = js ''<!-- End Build Size Section -->''\<rparr> < priority \<lparr>priority = 3, start = js ''<!-- Change Note Section -->'', end' = js ''<!-- End Change Note Section -->''\<rparr>" by simp
  from order_invariance [OF a b c, of "[]" "js ''All good''" "js ''Size: +1KB''"]
  have "\<exists>out1 out.
      updateCommentSection [] (js ''CHANGE_NOTE'') (js ''All good'') = Inr out1 \<and>
      updateCommentSection out1 (js ''BUILD_SIZE'') (js ''Size: +1KB'') = Inr out"
    by blast
  with a b c show ?thesis by (intro conjI)
qed

section \<open>Round trip\<close>

text \<open>
  C1. For every valid section set (registered identifiers, contents trimmed and free of
  markers), parsing the serialized document gives back the same mapping from
  identifiers to section instances.
\<close>

theorem round_trip:
  assumes "valid_sections ss"
  shows "map_of (parseCommentSections (buildComment ss)) = map_of ss"
proof -
  from assms have set: "section_set ss"
    and ok: "\<And>k s. (k, s) \<in> set ss \<Longrightarrow> trim (content s) = content s \<and> marker_free (content s)"
    by (auto simp: valid_sections_def)
  have c: "marker_free c \<and> trim c = c" if "contents ss k = Some c" for k c
  proof -
    from that obtain s where "map_of ss k = Some s" "c = content s"
      by (auto simp: contents_def)
    then have "(k, s) \<in> set ss" "c = content s" by (simp_all add: map_of_SomeD)
    with ok show ?thesis by auto
  qed
  have "parseCommentSections (buildComment ss) = parseCommentSections (render (contents ss))"
    using set by (simp add: build_section_set)
  also have "\<dots> = instances (\<lambda>k. map_option trim (contents ss k))"
    by (rule parse_render) (simp add: c)
  also have "(\<lambda>k. map_option trim (contents ss k)) = contents ss"
  proof
    fix k show "map_option trim (contents ss k) = contents ss k"
      by (cases "contents ss k") (simp_all add: c)
  qed
  finally show ?thesis using set by (simp add: map_of_section_set)
qed

theorem round_trip_witness:
  "valid_sections
     [(js ''CHANGE_NOTE'', \<lparr>content = js ''All good'', config = Some \<lparr>priority = 3, start = js ''<!-- Change Note Section -->'', end' = js ''<!-- End Change Note Section -->''\<rparr>\<rparr>),
      (js ''BUILD_SIZE'', \<lparr>content = js ''Size: +1KB'', config = Some \<lparr>priority = 1, start = js ''<!-- Build Size Section -->'', end' = js ''<!-- End Build Size Section -->''\<rparr>\<rparr>)] \<and>
   map_of (parseCommentSections (buildComment
     [(js ''CHANGE_NOTE'', \<lparr>content = js ''All good'', config = Some \<lparr>priority = 3, start = js ''<!-- Change Note Section -->'', end' = js ''<!-- End Change Note Section -->''\<rparr>\<rparr>),
      (js ''BUILD_SIZE'', \<lparr>content = js ''Size: +1KB'', config = Some \<lparr>priority = 1, start = js ''<!-- Build Size Section -->'', end' = js ''<!-- End Build Size Section -->''\<rparr>\<rparr>)])) =
   map_of
     [(js ''CHANGE_NOTE'', \<lparr>content = js ''All good'', config = Some \<lparr>priority = 3, start = js ''<!-- Change Note Section -->'', end' = js ''<!-- End Change Note Section -->''\<rparr>\<rparr>),
      (js ''BUILD_SIZE'', \<lparr>content = js ''Size: +1KB'', config = Some \<lparr>priority = 1, start = js ''<!-- Build Size Section -->'', end' = js ''<!-- End Build Size Section -->''\<rparr>\<rparr>)]"
proof -
  let ?ss = "[(js ''CHANGE_NOTE'', \<lparr>content = js ''All good'', config = Some \<lparr>priority = 3, start = js ''<!-- Change Note Section -->'', end' = js ''<!-- End Change Note Section -->''\<rparr>\<rparr>),
      (js ''BUILD_SIZE'', \<lparr>content = js ''Size: +1KB'', config = Some \<lparr>priority = 1, start = js ''<!-- Build Size Section -->'', end' = js ''<!-- End Build Size Section -->''\<rparr>\<rparr>)]"
  have "trim (js ''All good'') = js ''All good''" "trim (js ''Size: +1KB'') = js ''Size: +1KB''"
    by (simp_all add: eval_defs)
  moreover have "js ''CHANGE_NOTE'' \<noteq> js ''BUILD_SIZE''" by (simp add: js_def)
  moreover have "map_of SECTIONS (js ''CHANGE_NOTE'') = Some \<lparr>priority = 3, start = js ''<!-- Change Note Section -->'', end' = js ''<!-- End Change Note Section -->''\<rparr>"
    "map_of SECTIONS (js ''BUILD_SIZE'') = Some \<lparr>priority = 1, start = js ''<!-- Build Size Section -->'', end' = js ''<!-- End Build Size Section -->''\<rparr>"
    by (simp_all add: SECTIONS_def js_def)
  ultimately have v: "valid_sections ?ss"
    by (simp add: valid_sections_def section_set_def registered_iff marker_free_examples)
  from v round_trip [OF v] show ?thesis by (rule conjI)
qed

section \<open>Idempotence of upsert\<close>

text \<open>
  C3, as stated: upserting the same content twice gives the same bytes as upserting it
  once, for every body and content. This fails when the new content holds the markers
  of another section (the second upsert parses them as a section of its own), and when
  a content parsed from the body holds the start marker of another section (the first
  result parses differently from the body).
\<close>

theorem idempotence_counterexample:
  "updateCommentSection [] (js ''BUILD_SIZE'') (js ''<!-- Change Note Section --><!-- End Change Note Section -->'') =
     Inr (js ''<!-- TiddlyWiki PR report -->\<newline>\<newline><!-- Build Size Section -->\<newline>\<newline><!-- Change Note Section --><!-- End Change Note Section -->\<newline>\<newline><!-- End Build Size Section -->'') \<and>
   updateCommentSection (js ''<!-- TiddlyWiki PR report -->\<newline>\<newline><!-- Build Size Section -->\<newline>\<newline><!-- Change Note Section --><!-- End Change Note Section -->\<newline>\<newline><!-- End Build Size Section -->'') (js ''BUILD_SIZE'') (js ''<!-- Change Note Section --><!-- End Change Note Section -->'') \<noteq>
     Inr (js ''<!-- TiddlyWiki PR report -->\<newline>\<newline><!-- Build Size Section -->\<newline>\<newline><!-- Change Note Section --><!-- End Change Note Section -->\<newline>\<newline><!-- End Build Size Section -->'') \<and>
   updateCommentSection (js ''<!-- Build Size Section --><!-- Path Validation Section -->x<!-- End Build Size Section -->y<!-- End Path Validation Section -->'') (js ''CHANGE_NOTE'') (js ''c'') =
     Inr (js ''<!-- TiddlyWiki PR report -->\<newline>\<newline><!-- Build Size Section -->\<newline>\<newline><!-- Path Validation Section -->x\<newline>\<newline><!-- End Build Size Section -->\<newline>\<newline>---\<newline>\<newline><!-- Path Validation Section -->\<newline>\<newline>x<!-- End Build Size Section -->y\<newline>\<newline><!-- End Path Validation Section -->\<newline>\<newline>---\<newline>\<newline><!-- Change Note Section -->\<newline>\<newline>c\<newline>\<newline><!-- End Change Note Section -->'') \<and>
   updateCommentSection (js ''<!-- TiddlyWiki PR report -->\<newline>\<newline><!-- Build Size Section -->\<newline>\<newline><!-- Path Validation Section -->x\<newline>\<newline><!-- End Build Size Section -->\<newline>\<newline>---\<newline>\<newline><!-- Path Validation Section -->\<newline>\<newline>x<!-- End Build Size Section -->y\<newline>\<newline><!-- End Path Validation Section -->\<newline>\<newline>---\<newline>\<newline><!-- Change Note Section -->\<newline>\<newline>c\<newline>\<newline><!-- End Change Note Section -->'') (js ''CHANGE_NOTE'') (js ''c'') \<noteq>
     Inr (js ''<!-- TiddlyWiki PR report -->\<newline>\<newline><!-- Build Size Section -->\<newline>\<newline><!-- Path Validation Section -->x\<newline>\<newline><!-- End Build Size Section -->\<newline>\<newline>---\<newline>\<newline><!-- Path Validation Section -->\<newline>\<newline>x<!-- End Build Size Section -->y\<newline>\<newline><!-- End Path Validation Section -->\<newline>\<newline>---\<newline>\<newline><!-- Change Note Section -->\<newline>\<newline>c\<newline>\<newline><!-- End Change Note Section -->'')"
proof -
  have 1: "updateCommentSection [] (js ''BUILD_SIZE'') (js ''<!-- Change Note Section --><!-- End Change Note Section -->'') = Inr (js ''<!-- TiddlyWiki PR report -->\<newline>\<newline><!-- Build Size Section -->\<newline>\<newline><!-- Change Note Section --><!-- End Change Note Section -->\<newline>\<newline><!-- End Build Size Section -->'')"
    by (simp add: eval_ops)
  have 2: "updateCommentSection (js ''<!-- TiddlyWiki PR report -->\<newline>\<newline><!-- Build Size Section -->\<newline>\<newline><!-- Change Note Section --><!-- End Change Note Section -->\<newline>\<newline><!-- End Build Size Section -->'') (js ''BUILD_SIZE'') (js ''<!-- Change Note Section --><!-- End Change Note Section -->'') =
     Inr (js ''<!-- TiddlyWiki PR report -->\<newline>\<newline><!-- Build Size Section -->\<newline>\<newline><!-- Change Note Section --><!-- End Change Note Section -->\<newline>\<newline><!-- End Build Size Section -->\<newline>\<newline>---\<newline>\<newline><!-- Change Note Section -->\<newline>\<newline>\<newline>\<newline><!-- End Change Note Section -->'')"
    by (simp add: eval_ops)
  have "length (js ''<!-- TiddlyWiki PR report -->\<newline>\<newline><!-- Build Size Section -->\<newline>\<newline><!-- Change Note Section --><!-- End Change Note Section -->\<newline>\<newline><!-- End Build Size Section -->\<newline>\<newline>---\<newline>\<newline><!-- Change Note Section -->\<newline>\<newline>\<newline>\<newline><!-- End Change Note Section -->'') \<noteq> length (js ''<!-- TiddlyWiki PR report -->\<newline>\<newline><!-- Build Size Section -->\<newline>\<newline><!-- Change Note Section --><!-- End Change Note Section -->\<newline>\<newline><!-- End Build Size Section -->'')"
    by (simp add: js_def)
  then have 3: "js ''<!-- TiddlyWiki PR report -->\<newline>\<newline><!-- Build Size Section -->\<newline>\<newline><!-- Change Note Section --><!-- End Change Note Section -->\<newline>\<newline><!-- End Build Size Section -->\<newline>\<newline>---\<newline>\<newline><!-- Change Note Section -->\<newline>\<newline>\<newline>\<newline><!-- End Change Note Section -->'' \<noteq> js ''<!-- TiddlyWiki PR report -->\<newline>\<newline><!-- Build Size Section -->\<newline>\<newline><!-- Change Note Section --><!-- End Change Note Section -->\<newline>\<newline><!-- End Build Size Section -->''" by (rule contrapos_nn) (rule arg_cong)
  have 4: "updateCommentSection (js ''<!-- Build Size Section --><!-- Path Validation Section -->x<!-- End Build Size Section -->y<!-- End Path Validation Section -->'') (js ''CHANGE_NOTE'') (js ''c'') = Inr (js ''<!-- TiddlyWiki PR report -->\<newline>\<newline><!-- Build Size Section -->\<newline>\<newline><!-- Path Validation Section -->x\<newline>\<newline><!-- End Build Size Section -->\<newline>\<newline>---\<newline>\<newline><!-- Path Validation Section -->\<newline>\<newline>x<!-- End Build Size Section -->y\<newline>\<newline><!-- End Path Validation Section -->\<newline>\<newline>---\<newline>\<newline><!-- Change Note Section -->\<newline>\<newline>c\<newline>\<newline><!-- End Change Note Section -->'')"
    by (simp add: eval_ops)
  have 5: "updateCommentSection (js ''<!-- TiddlyWiki PR report -->\<newline>\<newline><!-- Build Size Section -->\<newline>\<newline><!-- Path Validation Section -->x\<newline>\<newline><!-- End Build Size Section -->\<newline>\<newline>---\<newline>\<newline><!-- Path Validation Section -->\<newline>\<newline>x<!-- End Build Size Section -->y\<newline>\<newline><!-- End Path Validation Section -->\<newline>\<newline>---\<newline>\<newline><!-- Change Note Section -->\<newline>\<newline>c\<newline>\<newline><!-- End Change Note Section -->'') (js ''CHANGE_NOTE'') (js ''c'') =
     Inr (js ''<!-- TiddlyWiki PR report -->\<newline>\<newline><!-- Build Size Section -->\<newline>\<newline><!-- Path Validation Section -->x\<newline>\<newline><!-- End Build Size Section -->\<newline>\<newline>---\<newline>\<newline><!-- Path Validation Section -->\<newline>\<newline>x\<newline>\<newline><!-- End Build Size Section -->\<newline>\<newline>---\<newline>\<newline><!-- Path Validation Section -->\<newline>\<newline>x<!-- End Build Size Section -->y\<newline>\<newline><!-- End Path Validation Section -->\<newline>\<newline>---\<newline>\<newline><!-- Change Note Section -->\<newline>\<newline>c\<newline>\<newline><!-- End Change Note Section -->'')"
    by (simp add: eval_ops)
  have "length (js ''<!-- TiddlyWiki PR report -->\<newline>\<newline><!-- Build Size Section -->\<newline>\<newline><!-- Path Validation Section -->x\<newline>\<newline><!-- End Build Size Section -->\<newline>\<newline>---\<newline>\<newline><!-- Path Validation Section -->\<newline>\<newline>x\<newline>\<newline><!-- End Build Size Section -->\<newline>\<newline>---\<newline>\<newline><!-- Path Validation Section -->\<newline>\<newline>x<!-- End Build Size Section -->y\<newline>\<newline><!-- End Path Validation Section -->\<newline>\<newline>---\<newline>\<newline><!-- Change Note Section -->\<newline>\<newline>c\<newline>\<newline><!-- End Change Note Section -->'') \<noteq> length (js ''<!-- TiddlyWiki PR report -->\<newline>\<newline><!-- Build Size Section -->\<newline>\<newline><!-- Path Validation Section -->x\<newline>\<newline><!-- End Build Size Section -->\<newline>\<newline>---\<newline>\<newline><!-- Path Validation Section -->\<newline>\<newline>x<!-- End Build Size Section -->y\<newline>\<newline><!-- End Path Validation Section -->\<newline>\<newline>---\<newline>\<newline><!-- Change Note Section -->\<newline>\<newline>c\<newline>\<newline><!-- End Change Note Section -->'')"
    by (simp add: js_def)
  then have 6: "js ''<!-- TiddlyWiki PR report -->\<newline>\<newline><!-- Build Size Section -->\<newline>\<newline><!-- Path Validation Section -->x\<newline>\<newline><!-- End Build Size Section -->\<newline>\<newline>---\<newline>\<newline><!-- Path Validation Section -->\<newline>\<newline>x\<newline>\<newline><!-- End Build Size Section -->\<newline>\<newline>---\<newline>\<newline><!-- Path Validation Section -->\<newline>\<newline>x<!-- End Build Size Section -->y\<newline>\<newline><!-- End Path Validation Section -->\<newline>\<newline>---\<newline>\<newline><!-- Change Note Section -->\<newline>\<newline>c\<newline>\<newline><!-- End Change Note Section -->'' \<noteq> js ''<!-- TiddlyWiki PR report -->\<newline>\<newline><!-- Build Size Section -->\<newline>\<newline><!-- Path Validation Section -->x\<newline>\<newline><!-- End Build Size Section -->\<newline>\<newline>---\<newline>\<newline><!-- Path Validation Section -->\<newline>\<newline>x<!-- End Build Size Section -->y\<newline>\<newline><!-- End Path Validation Section -->\<newline>\<newline>---\<newline>\<newline><!-- Change Note Section -->\<newline>\<newline>c\<newline>\<newline><!-- End Change Note Section -->''" by (rule contrapos_nn) (rule arg_cong)
  from 1 2 3 4 5 6 show ?thesis by simp
qed

text \<open>
  C3, amended: when neither the new content nor the content of any section parsed from
  the body holds a registered marker, upserting the same content into the result of
  the upsert returns the same bytes.
\<close>

theorem idempotence:
  assumes "registered A" "marker_free c1"
    and "\<forall>(k, s) \<in> set (parseCommentSections body). marker_free (content s)"
  shows "\<exists>out. updateCommentSection body A c1 = Inr out \<and> updateCommentSection out A c1 = Inr out"
proof -
  let ?f = "(parsed body)(A \<mapsto> c1)"
  have free: "marker_free c" if "registered k" "?f k = Some c" for k c
  proof (cases "k = A")
    case True
    with that assms(2) show ?thesis by simp
  next
    case False
    with that have "parsed body k = Some c" by simp
    with that(1) assms(3) show ?thesis by (auto elim!: parsed_Some)
  qed
  have "((parsed (render ?f))(A \<mapsto> c1)) k = ?f k" if k: "registered k" for k
  proof (cases "k = A")
    case True
    then show ?thesis by simp
  next
    case False
    have "parsed (render ?f) k = map_option trim (?f k)"
      using k free by (rule parsed_render)
    with False show ?thesis by (simp add: parsed_trimmed)
  qed
  then have "instances ((parsed (render ?f))(A \<mapsto> c1)) = instances ?f"
    by (rule instances_cong)
  then have "render ((parsed (render ?f))(A \<mapsto> c1)) = render ?f"
    by (simp add: render_def)
  then show ?thesis by (simp add: update_render [OF assms(1)])
qed

theorem idempotence_witness:
  "registered (js ''CHANGE_NOTE'') \<and> marker_free (js ''All good'') \<and>
   parseCommentSections (js ''<!-- Build Size Section -->12 KB<!-- End Build Size Section -->'') =
     [(js ''BUILD_SIZE'', \<lparr>content = js ''12 KB'', config = Some \<lparr>priority = 1, start = js ''<!-- Build Size Section -->'', end' = js ''<!-- End Build Size Section -->''\<rparr>\<rparr>)] \<and>
   marker_free (js ''12 KB'') \<and>
   (\<exists>out. updateCommentSection (js ''<!-- Build Size Section -->12 KB<!-- End Build Size Section -->'') (js ''CHANGE_NOTE'') (js ''All good'') = Inr out \<and>
          updateCommentSection out (js ''CHANGE_NOTE'') (js ''All good'') = Inr out)"
proof -
  have a: "registered (js ''CHANGE_NOTE'')" by (simp add: registered_iff)
  have b: "marker_free (js ''All good'')" by (rule marker_free_examples)
  have c: "\<forall>(k, s) \<in> set (parseCommentSections (js ''<!-- Build Size Section -->12 KB<!-- End Build Size Section -->'')). marker_free (content s)"
    by (simp add: parse_example marker_free_examples)
  from a b parse_example marker_free_examples(1) idempotence [OF a b c] show ?thesis
    by (intro conjI)
qed

section \<open>Deletion of an absent section\<close>

text \<open>
  C7, as stated: removing a registered identifier that is not present returns the
  canonical serialization of the body, and serializing that document again gives the
  same bytes, for every body. This fails for a body in which the content of one section
  holds the start marker of another: the serialization of its parsed sections parses
  differently.
\<close>

theorem deletion_noop_counterexample:
  "registered (js ''CHANGE_NOTE'') \<and>
   map_of (parseCommentSections (js ''<!-- Build Size Section --><!-- Path Validation Section -->x<!-- End Build Size Section -->y<!-- End Path Validation Section -->'')) (js ''CHANGE_NOTE'') = None \<and>
   removeCommentSection (js ''<!-- Build Size Section --><!-- Path Validation Section -->x<!-- End Build Size Section -->y<!-- End Path Validation Section -->'') (js ''CHANGE_NOTE'') =
     Inr (Some (js ''<!-- TiddlyWiki PR report -->\<newline>\<newline><!-- Build Size Section -->\<newline>\<newline><!-- Path Validation Section -->x\<newline>\<newline><!-- End Build Size Section -->\<newline>\<newline>---\<newline>\<newline><!-- Path Validation Section -->\<newline>\<newline>x<!-- End Build Size Section -->y\<newline>\<newline><!-- End Path Validation Section -->'')) \<and>
   buildComment (parseCommentSections (js ''<!-- TiddlyWiki PR report -->\<newline>\<newline><!-- Build Size Section -->\<newline>\<newline><!-- Path Validation Section -->x\<newline>\<newline><!-- End Build Size Section -->\<newline>\<newline>---\<newline>\<newline><!-- Path Validation Section -->\<newline>\<newline>x<!-- End Build Size Section -->y\<newline>\<newline><!-- End Path Validation Section -->'')) \<noteq>
     js ''<!-- TiddlyWiki PR report -->\<newline>\<newline><!-- Build Size Section -->\<newline>\<newline><!-- Path Validation Section -->x\<newline>\<newline><!-- End Build Size Section -->\<newline>\<newline>---\<newline>\<newline><!-- Path Validation Section -->\<newline>\<newline>x<!-- End Build Size Section -->y\<newline>\<newline><!-- End Path Validation Section -->''"
proof -
  have a: "registered (js ''CHANGE_NOTE'')" by (simp add: registered_iff)
  have p: "parseCommentSections (js ''<!-- Build Size Section --><!-- Path Validation Section -->x<!-- End Build Size Section -->y<!-- End Path Validation Section -->'') =
     [(js ''BUILD_SIZE'', \<lparr>content = js ''<!-- Path Validation Section -->x'', config = Some \<lparr>priority = 1, start = js ''<!-- Build Size Section -->'', end' = js ''<!-- End Build Size Section -->''\<rparr>\<rparr>),
      (js ''PATH_VALIDATION'', \<lparr>content = js ''x<!-- End Build Size Section -->y'', config = Some \<lparr>priority = 2, start = js ''<!-- Path Validation Section -->'', end' = js ''<!-- End Path Validation Section -->''\<rparr>\<rparr>)]"
    by (simp add: eval_defs)
  have b: "map_of (parseCommentSections (js ''<!-- Build Size Section --><!-- Path Validation Section -->x<!-- End Build Size Section -->y<!-- End Path Validation Section -->'')) (js ''CHANGE_NOTE'') = None"
    unfolding p by (simp add: js_def)
  have c: "removeCommentSection (js ''<!-- Build Size Section --><!-- Path Validation Section -->x<!-- End Build Size Section -->y<!-- End Path Validation Section -->'') (js ''CHANGE_NOTE'') = Inr (Some (js ''<!-- TiddlyWiki PR report -->\<newline>\<newline><!-- Build Size Section -->\<newline>\<newline><!-- Path Validation Section -->x\<newline>\<newline><!-- End Build Size Section -->\<newline>\<newline>---\<newline>\<newline><!-- Path Validation Section -->\<newline>\<newline>x<!-- End Build Size Section -->y\<newline>\<newline><!-- End Path Validation Section -->''))"
    unfolding removeCommentSection_def p by (simp add: eval_ops)
  have d: "buildComment (parseCommentSections (js ''<!-- TiddlyWiki PR report -->\<newline>\<newline><!-- Build Size Section -->\<newline>\<newline><!-- Path Validation Section -->x\<newline>\<newline><!-- End Build Size Section -->\<newline>\<newline>---\<newline>\<newline><!-- Path Validation Section -->\<newline>\<newline>x<!-- End Build Size Section -->y\<newline>\<newline><!-- End Path Validation Section -->'')) = js ''<!-- TiddlyWiki PR report -->\<newline>\<newline><!-- Build Size Section -->\<newline>\<newline><!-- Path Validation Section -->x\<newline>\<newline><!-- End Build Size Section -->\<newline>\<newline>---\<newline>\<newline><!-- Path Validation Section -->\<newline>\<newline>x\<newline>\<newline><!-- End Build Size Section -->\<newline>\<newline>---\<newline>\<newline><!-- Path Validation Section -->\<newline>\<newline>x<!-- End Build Size Section -->y\<newline>\<newline><!-- End Path Validation Section -->''"
    by (simp add: eval_ops)
  have "length (js ''<!-- TiddlyWiki PR report -->\<newline>\<newline><!-- Build Size Section -->\<newline>\<newline><!-- Path Validation Section -->x\<newline>\<newline><!-- End Build Size Section -->\<newline>\<newline>---\<newline>\<newline><!-- Path Validation Section -->\<newline>\<newline>x\<newline>\<newline><!-- End Build Size Section -->\<newline>\<newline>---\<newline>\<newline><!-- Path Validation Section -->\<newline>\<newline>x<!-- End Build Size Section -->y\<newline>\<newline><!-- End Path Validation Section -->'') \<noteq> length (js ''<!-- TiddlyWiki PR report -->\<newline>\<newline><!-- Build Size Section -->\<newline>\<newline><!-- Path Validation Section -->x\<newline>\<newline><!-- End Build Size Section -->\<newline>\<newline>---\<newline>\<newline><!-- Path Validation Section -->\<newline>\<newline>x<!-- End Build Size Section -->y\<newline>\<newline><!-- End Path Validation Section -->'')"
    by (simp add: js_def)
  then have "js ''<!-- TiddlyWiki PR report -->\<newline>\<newline><!-- Build Size Section -->\<newline>\<newline><!-- Path Validation Section -->x\<newline>\<newline><!-- End Build Size Section -->\<newline>\<newline>---\<newline>\<newline><!-- Path Validation Section -->\<newline>\<newline>x\<newline>\<newline><!-- End Build Size Section -->\<newline>\<newline>---\<newline>\<newline><!-- Path Validation Section -->\<newline>\<newline>x<!-- End Build Size Section -->y\<newline>\<newline><!-- End Path Validation Section -->'' \<noteq> js ''<!-- TiddlyWiki PR report -->\<newline>\<newline><!-- Build Size Section -->\<newline>\<newline><!-- Path Validation Section -->x\<newline>\<newline><!-- End Build Size Section -->\<newline>\<newline>---\<newline>\<newline><!-- Path Validation Section -->\<newline>\<newline>x<!-- End Build Size Section -->y\<newline>\<newline><!-- End Path Validation Section -->''" by (rule contrapos_nn) (rule arg_cong)
  with a b c d show ?thesis by simp
qed

text \<open>
  C7, amended: when the registered identifier \<open>X\<close> is not among the sections parsed
  from the body, \<open>removeCommentSection\<close> returns the canonical form of the parsed
  sections (\<open>null\<close> when there is none), which is what \<open>updateCommentSection\<close>
  returns when a parsed section is upserted with its parsed content. When, moreover, no
  content parsed from the body holds a registered marker, that string is its own
  canonical form after parsing, and removing \<open>X\<close> from it returns it unchanged.
\<close>

theorem deletion_noop:
  assumes "registered X" "map_of (parseCommentSections body) X = None"
  shows "removeCommentSection body X = Inr (canonical_form (parseCommentSections body)) \<and>
         (\<forall>out. canonical_form (parseCommentSections body) = Some out \<longrightarrow>
            (\<forall>(Y, s) \<in> set (parseCommentSections body).
               updateCommentSection body Y (content s) = Inr out) \<and>
            ((\<forall>(k, s) \<in> set (parseCommentSections body). marker_free (content s)) \<longrightarrow>
               canonical_form (parseCommentSections out) = Some out \<and>
               removeCommentSection out X = Inr (Some out)))"
proof -
  from assms(1) obtain cfg where cfg: "map_of SECTIONS X = Some cfg" by (rule registered_lookup)
  with assms(2) have "parsed body X = None"
    by (cases "parsed body X") (simp_all add: map_of_parse)
  then have same: "(parsed body)(X := None) = parsed body" by auto
  have canon: "canonical_form (parseCommentSections b) =
      (if instances (parsed b) = [] then None else Some (render (parsed b)))" for b
    by (simp add: canonical_form_def parse_instances build_instances)
  have 1: "removeCommentSection body X = Inr (canonical_form (parseCommentSections body))"
    by (simp add: remove_render [OF assms(1)] same canon)
  have 2: "\<forall>(Y, s) \<in> set (parseCommentSections body).
               updateCommentSection body Y (content s) = Inr out"
    if "canonical_form (parseCommentSections body) = Some out" for out
  proof (intro ballI, clarify)
    from that have out: "out = render (parsed body)"
      by (auto simp: canon split: if_splits)
    fix Y s assume Ys: "(Y, s) \<in> set (parseCommentSections body)"
    then have r: "registered Y" by (rule parsed_registered)
    from Ys have "map_of (parseCommentSections body) Y = Some s"
      using distinct_instances [of "parsed body"] by (simp add: parse_instances)
    then have "parsed body Y = Some (content s)"
      by (auto simp: map_of_parse split: option.splits)
    then have "(parsed body)(Y \<mapsto> content s) = parsed body" by auto
    then show "updateCommentSection body Y (content s) = Inr out"
      by (simp add: update_render [OF r] out)
  qed
  have 3: "canonical_form (parseCommentSections out) = Some out \<and>
           removeCommentSection out X = Inr (Some out)"
    if "canonical_form (parseCommentSections body) = Some out"
      and free: "\<forall>(k, s) \<in> set (parseCommentSections body). marker_free (content s)" for out
  proof
    from that(1) have out: "out = render (parsed body)"
      by (auto simp: canon split: if_splits)
    have same_parse: "parseCommentSections out = parseCommentSections body"
      unfolding out using free by (rule reparse_stable)
    with that(1) show again: "canonical_form (parseCommentSections out) = Some out"
      by (simp add: canonical_form_def)
    from same_parse assms(2) have "map_of (parseCommentSections out) X = None" by simp
    with cfg have "parsed out X = None"
      by (cases "parsed out X") (simp_all add: map_of_parse)
    then have "(parsed out)(X := None) = parsed out" by auto
    with again show "removeCommentSection out X = Inr (Some out)"
      by (simp add: remove_render [OF assms(1)] canon split: if_splits)
  qed
  from 1 2 3 show ?thesis by blast
qed

theorem deletion_noop_witness:
  "registered (js ''CHANGE_NOTE'') \<and>
   map_of (parseCommentSections (js ''<!-- Build Size Section -->12 KB<!-- End Build Size Section -->'')) (js ''CHANGE_NOTE'') = None \<and>
   parseCommentSections (js ''<!-- Build Size Section -->12 KB<!-- End Build Size Section -->'') =
     [(js ''BUILD_SIZE'', \<lparr>content = js ''12 KB'', config = Some \<lparr>priority = 1, start = js ''<!-- Build Size Section -->'', end' = js ''<!-- End Build Size Section -->''\<rparr>\<rparr>)] \<and>
   marker_free (js ''12 KB'') \<and>
   canonical_form (parseCommentSections (js ''<!-- Build Size Section -->12 KB<!-- End Build Size Section -->'')) =
     Some (js ''<!-- TiddlyWiki PR report -->\<newline>\<newline><!-- Build Size Section -->\<newline>\<newline>12 KB\<newline>\<newline><!-- End Build Size Section -->'') \<and>
   removeCommentSection (js ''<!-- Build Size Section -->12 KB<!-- End Build Size Section -->'') (js ''CHANGE_NOTE'') =
     Inr (Some (js ''<!-- TiddlyWiki PR report -->\<newline>\<newline><!-- Build Size Section -->\<newline>\<newline>12 KB\<newline>\<newline><!-- End Build Size Section -->'')) \<and>
   canonical_form (parseCommentSections (js ''<!-- TiddlyWiki PR report -->\<newline>\<newline><!-- Build Size Section -->\<newline>\<newline>12 KB\<newline>\<newline><!-- End Build Size Section -->'')) =
     Some (js ''<!-- TiddlyWiki PR report -->\<newline>\<newline><!-- Build Size Section -->\<newline>\<newline>12 KB\<newline>\<newline><!-- End Build Size Section -->'') \<and>
   removeCommentSection (js ''<!-- TiddlyWiki PR report -->\<newline>\<newline><!-- Build Size Section -->\<newline>\<newline>12 KB\<newline>\<newline><!-- End Build Size Section -->'') (js ''CHANGE_NOTE'') =
     Inr (Some (js ''<!-- TiddlyWiki PR report -->\<newline>\<newline><!-- Build Size Section -->\<newline>\<newline>12 KB\<newline>\<newline><!-- End Build Size Section -->'')) \<and>
   updateCommentSection (js ''<!-- Build Size Section -->12 KB<!-- End Build Size Section -->'') (js ''BUILD_SIZE'') (js ''12 KB'') =
     Inr (js ''<!-- TiddlyWiki PR report -->\<newline>\<newline><!-- Build Size Section -->\<newline>\<newline>12 KB\<newline>\<newline><!-- End Build Size Section -->'')"
proof -
  let ?b = "js ''<!-- Build Size Section -->12 KB<!-- End Build Size Section -->''"
  let ?o = "js ''<!-- TiddlyWiki PR report -->\<newline>\<newline><!-- Build Size Section -->\<newline>\<newline>12 KB\<newline>\<newline><!-- End Build Size Section -->''"
  have a: "registered (js ''CHANGE_NOTE'')" by (simp add: registered_iff)
  have b: "map_of (parseCommentSections ?b) (js ''CHANGE_NOTE'') = None"
    unfolding parse_example by (simp add: js_def)
  have c: "\<forall>(k, s) \<in> set (parseCommentSections ?b). marker_free (content s)"
    by (simp add: parse_example marker_free_examples)
  have d: "canonical_form (parseCommentSections ?b) = Some ?o"
    unfolding parse_example canonical_form_def
    by (simp add: buildComment_def field_def CEREBRUS_IDENTIFIER_def LF_def js_def)
  note noop = deletion_noop [OF a b]
  from noop d have 1: "removeCommentSection ?b (js ''CHANGE_NOTE'') = Inr (Some ?o)"
    by (simp only:)
  from noop d c have 2: "canonical_form (parseCommentSections ?o) = Some ?o"
    and 3: "removeCommentSection ?o (js ''CHANGE_NOTE'') = Inr (Some ?o)"
    by blast+
  from noop d have 4: "\<forall>(Y, s) \<in> set (parseCommentSections ?b). updateCommentSection ?b Y (content s) = Inr ?o"
    by blast
  from 4 have 5: "updateCommentSection ?b (js ''BUILD_SIZE'') (js ''12 KB'') = Inr ?o"
    unfolding parse_example by simp
  from a b parse_example marker_free_examples(1) d 1 2 3 5 show ?thesis by (intro conjI)
qed

end
